theory Spec2Isabelle
  imports Main "HOL-Library.Word" "HOL-Library.AList" "HOL-Library.Sublist"
    "HOL-Library.Multiset"
begin

unbundle bit_operations_syntax

section \<open>Data model of statefun/cache/cache.go\<close>

text \<open>
  The Go struct \<^verbatim>\<open>CacheStoreValue\<close> is a tree node that points to its parent and maps
  tokens to children. Here a node is a value of the datatype \<open>CacheStoreValue\<close>: its
  scalar fields are the record \<open>CSVFields\<close>, its map \<^verbatim>\<open>store\<close> is an association list
  (looked up with \<open>map_of\<close>, so the first binding of a key is the map's entry). A pointer
  to a node is the list of tokens that leads to it from the root; \<^verbatim>\<open>csv.parent\<close> is the
  pointer without its last token and \<^verbatim>\<open>csv.keyInParent\<close> is the last token. The root is
  the empty path and has no parent.

  The field \<^verbatim>\<open>value\<close> (an \<^verbatim>\<open>any\<close> that is nil or a byte slice) is called \<open>val\<close>. A
  channel of \<^verbatim>\<open>notifyUpdates\<close> is the list of messages delivered to it. Every function
  that reads the clock takes the reading \<open>now\<close> as an argument. The goroutine started by
  \<^verbatim>\<open>go csv.parent.collectGarbage()\<close> runs at once.
\<close>

type_synonym byte = "8 word"
type_synonym bytes = "byte list"
type_synonym KeyValue = "string \<times> bytes option"

record CSVFields =
  val :: "bytes option"
  valueExists :: bool
  purgeState :: int
  storeConsistencyWithKVLossTime :: int
  valueUpdateTime :: int
  notifyUpdates :: "(string \<times> KeyValue list) list"
  syncNeeded :: bool
  syncedWithKV :: bool

datatype CacheStoreValue =
  CSV (flds: CSVFields) (store: "(string \<times> CacheStoreValue) list")

type_synonym csvptr = "string list"

datatype KVError = ErrKeyNotFound | ErrUnavailable

record KV =
  kvData :: "(string \<times> bytes) list"
  kvDown :: bool

record CacheTransactionOperator =
  operatorType :: int
  opKey :: string
  opValue :: "bytes option"
  opUpdateInKV :: bool
  customTime :: int

record CacheTransaction =
  operators :: "CacheTransactionOperator list"
  beginCounter :: int

record CacheStore =
  kvStorePrefix :: string
  lruSize :: int
  kv :: KV
  rootValue :: CacheStoreValue
  lruTresholdTime :: int
  valuesInCache :: int
  transactions :: "(string \<times> CacheTransaction) list"
  stdout :: "string list"

datatype error = ValueDoesNotExist string | KVFailure KVError | SliceBoundsOutOfRange
  | IndexOutOfRange

subsection \<open>The key/value bucket\<close>

text \<open>
  Modelled from the spec: the bucket is the NATS client, which is not part of the
  repository. Section 6 asks for \<^verbatim>\<open>Get\<close>, \<^verbatim>\<open>Put\<close>, \<^verbatim>\<open>Delete\<close> and \<^verbatim>\<open>Watch\<close>, where a
  watch delivers every extant entry that matches and then a nil sentinel. A bucket that is
  down fails every call. \<open>KVError_Error\<close> is the text of an error of the client.
\<close>

definition KVError_Error :: "KVError \<Rightarrow> string" where
  "KVError_Error e =
     (case e of ErrKeyNotFound \<Rightarrow> ''nats: key not found''
      | ErrUnavailable \<Rightarrow> ''nats: connection closed'')"

definition kv_Get :: "KV \<Rightarrow> string \<Rightarrow> KVError + (string \<times> bytes)" where
  "kv_Get b k =
     (if kvDown b then Inl ErrUnavailable
      else case map_of (kvData b) k of None \<Rightarrow> Inl ErrKeyNotFound | Some v \<Rightarrow> Inr (k, v))"

definition kv_Put :: "KV \<Rightarrow> string \<Rightarrow> bytes \<Rightarrow> KVError option \<times> KV" where
  "kv_Put b k v =
     (if kvDown b then (Some ErrUnavailable, b)
      else (None, b\<lparr>kvData := AList.update k v (kvData b)\<rparr>))"

definition kv_Delete :: "KV \<Rightarrow> string \<Rightarrow> KVError option \<times> KV" where
  "kv_Delete b k =
     (if kvDown b then (Some ErrUnavailable, b)
      else (None, b\<lparr>kvData := AList.delete k (kvData b)\<rparr>))"

fun strings_Split :: "string \<Rightarrow> char \<Rightarrow> string list" where
  "strings_Split [] sep = [[]]"
| "strings_Split (c # cs) sep =
     (if c = sep then [] # strings_Split cs sep
      else (case strings_Split cs sep of
              [] \<Rightarrow> [[c]]
            | t # ts \<Rightarrow> (c # t) # ts))"

fun subjectMatches :: "string list \<Rightarrow> string list \<Rightarrow> bool" where
  "subjectMatches [] [] = True"
| "subjectMatches [] (k # ks) = False"
| "subjectMatches (p # ps) [] = False"
| "subjectMatches (p # ps) (k # ks) =
     (if p = ''>'' \<and> ps = [] then True
      else if p = ''*'' \<or> p = k then subjectMatches ps ks
      else False)"

definition kv_Watch :: "KV \<Rightarrow> string \<Rightarrow> KVError + (string \<times> bytes) option list" where
  "kv_Watch b subject =
     (if kvDown b then Inl ErrUnavailable
      else Inr (map Some
                  (filter (\<lambda>e. subjectMatches (strings_Split subject CHR ''.'')
                                               (strings_Split (fst e) CHR ''.''))
                          (kvData b))
                @ [None]))"

subsection \<open>Pointers into the tree\<close>

definition LoadChild :: "CacheStoreValue \<Rightarrow> string \<Rightarrow> CacheStoreValue option" where
  "LoadChild csv key = map_of (store csv) key"

primrec nodeAt :: "CacheStoreValue \<Rightarrow> csvptr \<Rightarrow> CacheStoreValue option" where
  "nodeAt n [] = Some n"
| "nodeAt n (k # ks) = (case LoadChild n k of None \<Rightarrow> None | Some c \<Rightarrow> nodeAt c ks)"

primrec updateAt ::
  "(CacheStoreValue \<Rightarrow> CacheStoreValue) \<Rightarrow> csvptr \<Rightarrow> CacheStoreValue \<Rightarrow> CacheStoreValue" where
  "updateAt f [] n = f n"
| "updateAt f (k # ks) n =
     (case LoadChild n k of
        None \<Rightarrow> n
      | Some c \<Rightarrow> CSV (flds n) (AList.update k (updateAt f ks c) (store n)))"

definition mapFields :: "(CSVFields \<Rightarrow> CSVFields) \<Rightarrow> CacheStoreValue \<Rightarrow> CacheStoreValue" where
  "mapFields g n = CSV (g (flds n)) (store n)"

definition updFields ::
  "(CSVFields \<Rightarrow> CSVFields) \<Rightarrow> csvptr \<Rightarrow> CacheStoreValue \<Rightarrow> CacheStoreValue" where
  "updFields g p root = updateAt (mapFields g) p root"

definition fieldsAt :: "CacheStoreValue \<Rightarrow> csvptr \<Rightarrow> CSVFields option" where
  "fieldsAt root p = map_option flds (nodeAt root p)"

subsection \<open>Methods of CacheStoreValue\<close>

definition notifySubscribers :: "string \<Rightarrow> bytes option \<Rightarrow> CSVFields \<Rightarrow> CSVFields" where
  "notifySubscribers key v f =
     f\<lparr>notifyUpdates := map (\<lambda>(cid, ch). (cid, ch @ [(key, v)])) (notifyUpdates f)\<rparr>"

function ConsistencyLoss :: "CacheStoreValue \<Rightarrow> csvptr \<Rightarrow> int \<Rightarrow> CacheStoreValue" where
  "ConsistencyLoss root csv lossTime =
     (let root1 = updFields (\<lambda>f. if lossTime > storeConsistencyWithKVLossTime f
                                  then f\<lparr>storeConsistencyWithKVLossTime := lossTime\<rparr>
                                  else f) csv root
      in if csv \<noteq> [] then ConsistencyLoss root1 (butlast csv) lossTime else root1)"
  by pat_completeness auto
termination
  by (relation "measure (\<lambda>(root, csv, t). length csv)") auto

declare ConsistencyLoss.simps [simp del]

definition newCSV :: "bytes option \<Rightarrow> bool \<Rightarrow> bool \<Rightarrow> int \<Rightarrow> CacheStoreValue" where
  "newCSV v exists updateInKV t =
     CSV \<lparr>val = v, valueExists = exists, purgeState = 0,
          storeConsistencyWithKVLossTime = 0, valueUpdateTime = t, notifyUpdates = [],
          syncNeeded = updateInKV, syncedWithKV = \<not> updateInKV\<rparr> []"

definition StoreChild ::
  "CacheStoreValue \<Rightarrow> csvptr \<Rightarrow> string \<Rightarrow> CacheStoreValue \<Rightarrow> CacheStoreValue" where
  "StoreChild root csv key child =
     updateAt (\<lambda>n. CSV (notifySubscribers key (val (flds child)) (flds n))
                        (AList.update key child (store n))) csv root"

definition csvPut :: "bytes \<Rightarrow> bool \<Rightarrow> int \<Rightarrow> int \<Rightarrow> CSVFields \<Rightarrow> CSVFields" where
  "csvPut v updateInKV customPutTime now f =
     f\<lparr>val := Some v, valueExists := True, purgeState := 0,
       valueUpdateTime := (if customPutTime < 0 then now else customPutTime),
       syncNeeded := updateInKV, syncedWithKV := \<not> updateInKV\<rparr>"

definition Put ::
  "CacheStoreValue \<Rightarrow> csvptr \<Rightarrow> bytes \<Rightarrow> bool \<Rightarrow> int \<Rightarrow> int \<Rightarrow> CacheStoreValue" where
  "Put root csv v updateInKV customPutTime now =
     (let root1 = updFields (csvPut v updateInKV customPutTime now) csv root
      in if csv \<noteq> []
         then updFields (notifySubscribers (last csv) (Some v)) (butlast csv) root1
         else root1)"

definition TryPurgeReady :: "CSVFields \<Rightarrow> CSVFields" where
  "TryPurgeReady f = (if purgeState f = 0 then f\<lparr>purgeState := 1\<rparr> else f)"

definition TryPurgeConfirm :: "CSVFields \<Rightarrow> CSVFields" where
  "TryPurgeConfirm f =
     (if \<not> syncNeeded f \<and> syncedWithKV f \<and> purgeState f = 1 then f\<lparr>purgeState := 2\<rparr> else f)"

definition csvDelete :: "bool \<Rightarrow> int \<Rightarrow> int \<Rightarrow> CSVFields \<Rightarrow> CSVFields" where
  "csvDelete updateInKV customDeleteTime now f =
     (let f1 = f\<lparr>val := None, valueExists := False,
                 valueUpdateTime := (if customDeleteTime < 0 then now else customDeleteTime)\<rparr>
      in if updateInKV
         then f1\<lparr>purgeState := 1, syncNeeded := True, syncedWithKV := False\<rparr>
         else f1\<lparr>purgeState := 2, syncNeeded := False, syncedWithKV := True\<rparr>)"

definition Delete :: "CacheStoreValue \<Rightarrow> csvptr \<Rightarrow> bool \<Rightarrow> int \<Rightarrow> int \<Rightarrow> CacheStoreValue" where
  "Delete root csv updateInKV customDeleteTime now =
     (let root1 = updFields (csvDelete updateInKV customDeleteTime now) csv root
      in if csv \<noteq> []
         then updFields (notifySubscribers (last csv) None) (butlast csv) root1
         else root1)"

text \<open>
  \<^verbatim>\<open>collectGarbage\<close>, first the part under the node's lock: the fields it leaves and
  the flag \<^verbatim>\<open>canBeDeletedFromParent\<close> it computes. The function returns the tree and,
  for each \<^verbatim>\<open>delete(csv.parent.store, ...)\<close> it ran, the pointer of the node removed
  together with the node as it was at that moment.
\<close>

definition collectGarbageLocked :: "CacheStoreValue \<Rightarrow> CSVFields" where
  "collectGarbageLocked n =
     (if \<not> valueExists (flds n) \<and> length (store n) = 0 \<and> syncedWithKV (flds n)
      then TryPurgeConfirm (TryPurgeReady (flds n)) else flds n)"

definition canBeDeletedFromParent :: "CacheStoreValue \<Rightarrow> bool" where
  "canBeDeletedFromParent n =
     (let noNotifySubscribers = (notifyUpdates (flds n) = [])
      in purgeState (flds n) = 2 \<and> length (store n) = 0 \<and> \<not> syncNeeded (flds n)
         \<and> syncedWithKV (flds n) \<and> noNotifySubscribers)"

definition deleteChild :: "string \<Rightarrow> CacheStoreValue \<Rightarrow> CacheStoreValue" where
  "deleteChild key p = CSV (flds p) (AList.delete key (store p))"

function collectGarbage ::
  "CacheStoreValue \<Rightarrow> csvptr \<Rightarrow> CacheStoreValue \<times> (csvptr \<times> CacheStoreValue) list" where
  "collectGarbage root csv =
     (case nodeAt root csv of
        None \<Rightarrow> (root, [])
      | Some n \<Rightarrow>
          (let n1 = CSV (collectGarbageLocked n) (store n);
               root1 = updFields (\<lambda>_. collectGarbageLocked n) csv root
           in if csv \<noteq> [] \<and> canBeDeletedFromParent n1
              then (let root2 = updateAt (deleteChild (last csv)) (butlast csv) root1;
                        r = collectGarbage root2 (butlast csv)
                    in (fst r, (csv, n1) # snd r))
              else (root1, [])))"
  by pat_completeness auto
termination
  by (relation "measure (\<lambda>(root, csv). length csv)") auto

declare collectGarbage.simps [simp del]

subsection \<open>Keys\<close>

fun strings_Replace1 :: "string \<Rightarrow> string \<Rightarrow> string \<Rightarrow> string" where
  "strings_Replace1 [] old new = (if old = [] then new else [])"
| "strings_Replace1 (c # cs) old new =
     (if prefix old (c # cs) then new @ drop (length old) (c # cs)
      else c # strings_Replace1 cs old new)"

definition toStoreKey :: "CacheStore \<Rightarrow> string \<Rightarrow> string" where
  "toStoreKey cs key = kvStorePrefix cs @ ''.'' @ key"

definition fromStoreKey :: "CacheStore \<Rightarrow> string \<Rightarrow> string" where
  "fromStoreKey cs key = strings_Replace1 key (kvStorePrefix cs @ ''.'') []"

text \<open>
  The loop of \<^verbatim>\<open>getLastKeyTokenAndItsParentCacheStoreValue\<close>: the tokens not yet consumed
  and the pointer \<^verbatim>\<open>currentStoreLevel\<close>. It returns the last token, the parent (or nil)
  and the tree, which has new routing nodes when \<^verbatim>\<open>createIfNotexists\<close> is set.
\<close>

fun getLastKeyTokenLoop ::
  "CacheStoreValue \<Rightarrow> int \<Rightarrow> bool \<Rightarrow> string list \<Rightarrow> csvptr
   \<Rightarrow> string \<times> csvptr option \<times> CacheStoreValue" where
  "getLastKeyTokenLoop root now createIfNotexists [] cur = ([], None, root)"
| "getLastKeyTokenLoop root now createIfNotexists [t] cur = (t, Some cur, root)"
| "getLastKeyTokenLoop root now createIfNotexists (t # t' # ts) cur =
     (case nodeAt root (cur @ [t]) of
        Some csv \<Rightarrow> getLastKeyTokenLoop root now createIfNotexists (t' # ts) (cur @ [t])
      | None \<Rightarrow>
          if createIfNotexists
          then getLastKeyTokenLoop (StoreChild root cur t (newCSV None False False now))
                 now createIfNotexists (t' # ts) (cur @ [t])
          else ([], None, root))"

definition getLastKeyTokenAndItsParentCacheStoreValue ::
  "CacheStoreValue \<Rightarrow> int \<Rightarrow> string \<Rightarrow> bool \<Rightarrow> string \<times> csvptr option \<times> CacheStoreValue" where
  "getLastKeyTokenAndItsParentCacheStoreValue root now key createIfNotexists =
     getLastKeyTokenLoop root now createIfNotexists (strings_Split key CHR ''.'') []"

fun getLastExistingLoop :: "CacheStoreValue \<Rightarrow> string list \<Rightarrow> csvptr \<Rightarrow> csvptr" where
  "getLastExistingLoop root [] cur = cur"
| "getLastExistingLoop root [t] cur = cur"
| "getLastExistingLoop root (t # t' # ts) cur =
     (case nodeAt root (cur @ [t]) of
        Some csv \<Rightarrow> getLastExistingLoop root (t' # ts) (cur @ [t])
      | None \<Rightarrow> cur)"

definition getLastExistingCacheStoreValueByKey :: "CacheStoreValue \<Rightarrow> string \<Rightarrow> csvptr" where
  "getLastExistingCacheStoreValueByKey root key =
     getLastExistingLoop root (strings_Split key CHR ''.'') []"

fun getLastKeyLoop :: "CacheStoreValue \<Rightarrow> string list \<Rightarrow> csvptr \<Rightarrow> csvptr option" where
  "getLastKeyLoop root [] cur = Some cur"
| "getLastKeyLoop root (t # ts) cur =
     (case nodeAt root (cur @ [t]) of
        Some csv \<Rightarrow> getLastKeyLoop root ts (cur @ [t])
      | None \<Rightarrow> None)"

definition getLastKeyCacheStoreValue :: "CacheStoreValue \<Rightarrow> string \<Rightarrow> csvptr option" where
  "getLastKeyCacheStoreValue root key = getLastKeyLoop root (strings_Split key CHR ''.'') []"

text \<open>
  \<^verbatim>\<open>GetValueUpdateTime\<close>, \<^verbatim>\<open>GetValue\<close> and \<^verbatim>\<open>DeleteValue\<close> open with the same two lines:
  the parent of the key is looked up without creating it and, when the last token is
  not empty and the parent is there, the child is loaded from it.
\<close>

definition loadChildByKey :: "CacheStoreValue \<Rightarrow> string \<Rightarrow> (csvptr \<times> CacheStoreValue) option" where
  "loadChildByKey root key =
     (case getLastKeyTokenAndItsParentCacheStoreValue root 0 key False of
        (keyLastToken, parent, root1) \<Rightarrow>
          (case parent of
             None \<Rightarrow> None
           | Some p \<Rightarrow>
               if length keyLastToken > 0
               then (case nodeAt root (p @ [keyLastToken]) of
                       Some csv \<Rightarrow> Some (p @ [keyLastToken], csv)
                     | None \<Rightarrow> None)
               else None))"

subsection \<open>Methods of CacheStore\<close>

definition GetValueUpdateTime :: "CacheStore \<Rightarrow> string \<Rightarrow> int" where
  "GetValueUpdateTime cs key =
     (case loadChildByKey (rootValue cs) key of
        Some (p, csv) \<Rightarrow> valueUpdateTime (flds csv)
      | None \<Rightarrow> - 1)"

definition SetValue ::
  "CacheStore \<Rightarrow> int \<Rightarrow> string \<Rightarrow> bytes \<Rightarrow> bool \<Rightarrow> int \<Rightarrow> string \<Rightarrow> CacheStore" where
  "SetValue cs now key v updateInKV customSetTime0 transactionId =
     (let customSetTime = (if customSetTime0 < 0 then now else customSetTime0)
      in if length transactionId = 0
         then (case getLastKeyTokenAndItsParentCacheStoreValue (rootValue cs) now key True of
                 (keyLastToken, parent, root1) \<Rightarrow>
                   (case parent of
                      None \<Rightarrow> cs\<lparr>rootValue := root1\<rparr>
                    | Some p \<Rightarrow>
                        if length keyLastToken > 0
                        then (case nodeAt root1 (p @ [keyLastToken]) of
                                Some csv \<Rightarrow>
                                  cs\<lparr>rootValue :=
                                       Put root1 (p @ [keyLastToken]) v updateInKV customSetTime now\<rparr>
                              | None \<Rightarrow>
                                  cs\<lparr>rootValue :=
                                       StoreChild root1 p keyLastToken
                                         (newCSV (Some v) True updateInKV customSetTime)\<rparr>)
                        else cs\<lparr>rootValue := root1\<rparr>))
         else (case map_of (transactions cs) transactionId of
                 Some tr \<Rightarrow>
                   cs\<lparr>transactions :=
                        AList.update transactionId
                          (tr\<lparr>operators := operators tr @
                                [\<lparr>operatorType = 0, opKey = key, opValue = Some v,
                                  opUpdateInKV = updateInKV, customTime = customSetTime\<rparr>]\<rparr>)
                          (transactions cs)\<rparr>
               | None \<Rightarrow>
                   cs\<lparr>stdout := stdout cs @
                        [''ERROR SetValue: transaction with id='' @ transactionId
                         @ '' doesn't exist'']\<rparr>))"

definition DeleteValue ::
  "CacheStore \<Rightarrow> int \<Rightarrow> string \<Rightarrow> bool \<Rightarrow> int \<Rightarrow> string \<Rightarrow> CacheStore" where
  "DeleteValue cs now key updateInKV customDeleteTime0 transactionId =
     (let customDeleteTime = (if customDeleteTime0 < 0 then now else customDeleteTime0)
      in if length transactionId = 0
         then (case loadChildByKey (rootValue cs) key of
                 Some (p, csv) \<Rightarrow>
                   if valueExists (flds csv)
                   then cs\<lparr>rootValue :=
                             Delete (rootValue cs) p updateInKV customDeleteTime now\<rparr>
                   else cs
               | None \<Rightarrow> cs)
         else (case map_of (transactions cs) transactionId of
                 Some tr \<Rightarrow>
                   cs\<lparr>transactions :=
                        AList.update transactionId
                          (tr\<lparr>operators := operators tr @
                                [\<lparr>operatorType = 1, opKey = key, opValue = None,
                                  opUpdateInKV = updateInKV, customTime = customDeleteTime\<rparr>]\<rparr>)
                          (transactions cs)\<rparr>
               | None \<Rightarrow>
                   cs\<lparr>stdout := stdout cs @
                        [''ERROR DeleteValue: transaction with id='' @ transactionId
                         @ '' doesn't exist'']\<rparr>))"

definition BigEndian_Uint64 :: "bytes \<Rightarrow> 64 word" where
  "BigEndian_Uint64 b = foldl (\<lambda>acc x. push_bit 8 acc OR ucast x) 0 (take 8 b)"

definition BigEndian_PutUint64 :: "64 word \<Rightarrow> bytes" where
  "BigEndian_PutUint64 v = map (\<lambda>i. ucast (drop_bit (8 * (7 - i)) v)) [0..<8]"

text \<open>
  \<^verbatim>\<open>GetValue\<close> returns the bytes or the error, and the cache (a miss that finds a value
  in the bucket stores it). On a miss (\<open>GetValueCacheMiss\<close>) the slice \<^verbatim>\<open>valueBytes[9:]\<close>
  is taken before the length of \<^verbatim>\<open>valueBytes\<close> is tested; Go panics there when the value
  has fewer than 9 bytes.
\<close>

definition GetValueCacheMiss ::
  "CacheStore \<Rightarrow> int \<Rightarrow> string \<Rightarrow> (error + bytes) \<times> CacheStore" where
  "GetValueCacheMiss cs now key =
     (case kv_Get (kv cs) (toStoreKey cs key) of
        Inr entry \<Rightarrow>
          (let key' = fromStoreKey cs (fst entry);
               valueBytes = snd entry
           in if length valueBytes < 9 then (Inl SliceBoundsOutOfRange, cs)
              else (let result = drop 9 valueBytes
                    in if length valueBytes \<ge> 9
                       then (let appendFlag = valueBytes ! 8;
                                 kvRecordTime = sint (BigEndian_Uint64 (take 8 valueBytes))
                             in if appendFlag = 1
                                then (Inr result,
                                      SetValue cs now key' result False kvRecordTime [])
                                else (Inr result, cs))
                       else (Inr result, cs)))
      | Inl err \<Rightarrow> (Inl (KVFailure err), cs))"

definition GetValue :: "CacheStore \<Rightarrow> int \<Rightarrow> string \<Rightarrow> (error + bytes) \<times> CacheStore" where
  "GetValue cs now key =
     (case loadChildByKey (rootValue cs) key of
        Some (p, csv) \<Rightarrow>
          if valueExists (flds csv)
          then (Inr (case val (flds csv) of Some bv \<Rightarrow> bv | None \<Rightarrow> []), cs)
          else (Inl (ValueDoesNotExist key), cs)
      | None \<Rightarrow> GetValueCacheMiss cs now key)"

text \<open>
  The body of the loop of \<^verbatim>\<open>storeUpdatesHandler\<close> for one entry that is not nil: the key
  and the value the watch delivered.
\<close>

definition storeUpdatesHandler ::
  "CacheStore \<Rightarrow> int \<Rightarrow> string \<times> bytes \<Rightarrow> CacheStore" where
  "storeUpdatesHandler cs now entry =
     (let key = fromStoreKey cs (fst entry);
          valueBytes = snd entry
      in if length valueBytes \<ge> 9
         then (let appendFlag = valueBytes ! 8;
                   kvRecordTime = sint (BigEndian_Uint64 (take 8 valueBytes));
                   cacheRecordTime = GetValueUpdateTime cs key
               in if kvRecordTime > cacheRecordTime
                  then (if appendFlag = 1
                        then SetValue cs now key (drop 9 valueBytes) False kvRecordTime []
                        else cs\<lparr>kv := snd (kv_Delete (kv cs) (fst entry))\<rparr>)
                  else if kvRecordTime = cacheRecordTime
                  then (let cs1 = (if appendFlag = 0
                                   then cs\<lparr>kv := snd (kv_Delete (kv cs) (fst entry))\<rparr>
                                   else cs)
                        in case getLastKeyCacheStoreValue (rootValue cs1) key of
                             Some csv \<Rightarrow>
                               cs1\<lparr>rootValue :=
                                     updFields (\<lambda>f. TryPurgeConfirm (f\<lparr>syncedWithKV := True\<rparr>))
                                       csv (rootValue cs1)\<rparr>
                           | None \<Rightarrow> cs1)
                  else cs)
         else if length valueBytes = 0
         then (case getLastKeyCacheStoreValue (rootValue cs) key of
                 Some csv \<Rightarrow>
                   cs\<lparr>rootValue :=
                        updFields (\<lambda>f. TryPurgeConfirm (TryPurgeReady (f\<lparr>syncedWithKV := True\<rparr>)))
                          csv (rootValue cs)\<rparr>
               | None \<Rightarrow> cs)
         else cs\<lparr>stdout := stdout cs @
                   [''ERROR storeUpdatesHandler: received value without time and append flag!'']\<rparr>)"

subsection \<open>The lazy writer\<close>

text \<open>
  The callback that \<^verbatim>\<open>kvLazyWriter\<close> passes to \<^verbatim>\<open>Range\<close>, for the child under \<open>key\<close> of the
  node \<^verbatim>\<open>currentStoreValue\<close>. It returns the cache and the stack of the walk. A dirty
  child is written to the bucket (\<open>lazyWriterPut\<close>), a clean and cold one is marked for
  purge (\<open>lazyWriterPurge\<close>). The second test of \<^verbatim>\<open>csvChild.syncNeeded\<close> reads the value
  of the first one, since nothing between them writes the field.
\<close>

type_synonym lazyStack = "(csvptr \<times> string \<times> nat) list"

definition lazyWriterPut ::
  "CacheStore \<Rightarrow> csvptr \<Rightarrow> string \<Rightarrow> string \<Rightarrow> CSVFields \<Rightarrow> CacheStore" where
  "lazyWriterPut cs csvChild newSuffix key f =
     (let valueUpdateTime0 = valueUpdateTime f;
          timeBytes = BigEndian_PutUint64 (word_of_int (valueUpdateTime f));
          finalBytes =
            (if valueExists f
             then (timeBytes @ [1]) @ (case val f of Some b \<Rightarrow> b | None \<Rightarrow> [])
             else timeBytes @ [0]);
          r = kv_Put (kv cs) (toStoreKey cs newSuffix) finalBytes
      in case fst r of
           None \<Rightarrow>
             cs\<lparr>kv := snd r,
                rootValue :=
                  updFields (\<lambda>g. if valueUpdateTime0 = valueUpdateTime g
                                  then g\<lparr>syncNeeded := False\<rparr> else g)
                    csvChild (rootValue cs)\<rparr>
         | Some err \<Rightarrow>
             cs\<lparr>kv := snd r,
                stdout := stdout cs @
                  [''CacheStore kvLazyWriter cannot update key='' @ key @ [CHR 0x0A] @ '': ''
                   @ KVError_Error err]\<rparr>)"

definition lazyWriterPurge :: "CacheStore \<Rightarrow> int \<Rightarrow> csvptr \<Rightarrow> csvptr \<Rightarrow> CacheStore" where
  "lazyWriterPurge cs now currentStoreValue csvChild =
     cs\<lparr>rootValue :=
          updFields (\<lambda>g. TryPurgeConfirm (TryPurgeReady g)) csvChild
            (ConsistencyLoss (rootValue cs) currentStoreValue now)\<rparr>"

definition kvLazyWriterChild ::
  "int \<Rightarrow> csvptr \<Rightarrow> string \<Rightarrow> nat \<Rightarrow> CacheStore \<times> lazyStack \<Rightarrow> string
   \<Rightarrow> CacheStore \<times> lazyStack" where
  "kvLazyWriterChild now currentStoreValue currentSuffix currentDepth acc key =
     (let cs = fst acc;
          newSuffix = (if currentDepth = 0 then currentSuffix @ key
                       else currentSuffix @ ''.'' @ key);
          csvChild = currentStoreValue @ [key];
          cs' =
            (case fieldsAt (rootValue cs) csvChild of
               None \<Rightarrow> cs
             | Some f \<Rightarrow>
                 if syncNeeded f
                 then lazyWriterPut cs csvChild newSuffix key f
                 else if valueUpdateTime f > 0 \<and> valueUpdateTime f \<le> lruTresholdTime cs
                         \<and> purgeState f = 0
                 then lazyWriterPurge cs now currentStoreValue csvChild
                 else cs)
      in (cs', snd acc @ [(csvChild, newSuffix, currentDepth + 1)]))"

text \<open>
  \<^verbatim>\<open>Range\<close> visits each key of the map once: the keys of the association list without
  the bindings that an earlier one hides.
\<close>

definition rangeKeys :: "CacheStoreValue \<Rightarrow> string list" where
  "rangeKeys n = map fst (AList.clearjunk (store n))"

fun cnt :: "CacheStoreValue \<Rightarrow> nat" where
  "cnt (CSV f st) = Suc (sum_list (map (\<lambda>e. cnt (snd e)) st))"

definition cntAt :: "CacheStoreValue \<Rightarrow> csvptr \<Rightarrow> nat" where
  "cntAt root p = (case nodeAt root p of None \<Rightarrow> 0 | Some n \<Rightarrow> cnt n)"

definition shrinks :: "CacheStoreValue \<Rightarrow> CacheStoreValue \<Rightarrow> bool" where
  "shrinks t' t \<longleftrightarrow> (\<forall>q. cntAt t' q \<le> cntAt t q)"

lemma nodeAt_append:
  "nodeAt n (p @ q) = (case nodeAt n p of None \<Rightarrow> None | Some c \<Rightarrow> nodeAt c q)"
  by (induction p arbitrary: n) (auto split: option.splits)

lemma shrinks_refl: "shrinks t t"
  by (simp add: shrinks_def)

lemma shrinks_trans: "shrinks a b \<Longrightarrow> shrinks b c \<Longrightarrow> shrinks a c"
  unfolding shrinks_def by (meson le_trans)

lemma cntAt_Nil: "cntAt t [] = cnt t"
  by (simp add: cntAt_def)

lemma cntAt_Cons:
  "cntAt t (k # ks) = (case LoadChild t k of None \<Rightarrow> 0 | Some c \<Rightarrow> cntAt c ks)"
  by (simp add: cntAt_def split: option.splits)

lemma sum_cnt_update:
  "map_of st k = Some c \<Longrightarrow> cnt c' \<le> cnt c \<Longrightarrow>
   sum_list (map (\<lambda>e. cnt (snd e)) (AList.update k c' st))
     \<le> sum_list (map (\<lambda>e. cnt (snd e)) st)"
  by (induction st) (auto split: if_splits)

lemma sum_cnt_delete:
  "sum_list (map (\<lambda>e. cnt (snd e)) (AList.delete k st)) \<le> sum_list (map (\<lambda>e. cnt (snd e)) st)"
  by (induction st) auto

lemma shrinks_child_update:
  assumes "LoadChild t k = Some c" and "shrinks c' c"
  shows "shrinks (CSV (flds t) (AList.update k c' (store t))) t"
  unfolding shrinks_def
proof
  fix q
  show "cntAt (CSV (flds t) (AList.update k c' (store t))) q \<le> cntAt t q"
  proof (cases q)
    case Nil
    have "cnt c' \<le> cnt c"
      using assms(2) by (metis cntAt_Nil shrinks_def)
    with assms(1) have
      "sum_list (map (\<lambda>e. cnt (snd e)) (AList.update k c' (store t)))
         \<le> sum_list (map (\<lambda>e. cnt (snd e)) (store t))"
      by (simp add: LoadChild_def sum_cnt_update)
    then show ?thesis
      using Nil by (cases t) (simp add: cntAt_Nil)
  next
    case (Cons k' ks)
    show ?thesis
    proof (cases "k' = k")
      case True
      then show ?thesis
        using Cons assms
        by (simp add: cntAt_Cons LoadChild_def update_conv' shrinks_def)
    next
      case False
      then show ?thesis
        using Cons by (simp add: cntAt_Cons LoadChild_def update_conv')
    qed
  qed
qed

lemma updateAt_shrinks:
  "(\<And>n. shrinks (f n) n) \<Longrightarrow> shrinks (updateAt f p t) t"
proof (induction p arbitrary: t)
  case Nil
  then show ?case by simp
next
  case (Cons k ks)
  show ?case
  proof (cases "LoadChild t k")
    case None
    then show ?thesis by (simp add: shrinks_refl)
  next
    case (Some c)
    have "shrinks (updateAt f ks c) c"
      using Cons by blast
    then show ?thesis
      using Some by (simp add: shrinks_child_update)
  qed
qed

lemma mapFields_shrinks: "shrinks (mapFields g n) n"
  unfolding shrinks_def
proof
  fix q
  show "cntAt (mapFields g n) q \<le> cntAt n q"
    by (cases q; cases n) (simp_all add: mapFields_def cntAt_Nil cntAt_Cons LoadChild_def)
qed

lemma updFields_shrinks: "shrinks (updFields g p t) t"
  unfolding updFields_def by (rule updateAt_shrinks) (rule mapFields_shrinks)

lemma deleteChild_shrinks: "shrinks (deleteChild k n) n"
  unfolding shrinks_def
proof
  fix q
  show "cntAt (deleteChild k n) q \<le> cntAt n q"
  proof (cases q)
    case Nil
    then show ?thesis
      using sum_cnt_delete [of k "store n"] by (cases n) (simp add: cntAt_Nil deleteChild_def)
  next
    case (Cons k' ks)
    then show ?thesis
      by (simp add: cntAt_Cons LoadChild_def delete_conv' deleteChild_def)
  qed
qed

lemma ConsistencyLoss_shrinks: "shrinks (ConsistencyLoss root csv t) root"
proof (induction root csv t rule: ConsistencyLoss.induct)
  case (1 root csv lossTime)
  define root1 where "root1 = updFields (\<lambda>f. if lossTime > storeConsistencyWithKVLossTime f
                                 then f\<lparr>storeConsistencyWithKVLossTime := lossTime\<rparr>
                                 else f) csv root"
  have s1: "shrinks root1 root"
    unfolding root1_def by (rule updFields_shrinks)
  have eq: "ConsistencyLoss root csv lossTime
              = (if csv \<noteq> [] then ConsistencyLoss root1 (butlast csv) lossTime else root1)"
    by (subst ConsistencyLoss.simps) (simp add: root1_def Let_def)
  show ?case
  proof (cases "csv = []")
    case True
    then show ?thesis
      using s1 eq by simp
  next
    case False
    then have "shrinks (ConsistencyLoss root1 (butlast csv) lossTime) root1"
      using "1.IH" [OF root1_def] by simp
    then show ?thesis
      using False eq s1 shrinks_trans by auto
  qed
qed

lemma collectGarbage_shrinks: "shrinks (fst (collectGarbage root csv)) root"
proof (induction root csv rule: collectGarbage.induct)
  case (1 root csv)
  show ?case
  proof (cases "nodeAt root csv")
    case None
    then show ?thesis
      by (subst collectGarbage.simps) (simp add: shrinks_refl)
  next
    case (Some n)
    define n1 where "n1 = CSV (collectGarbageLocked n) (store n)"
    define root1 where "root1 = updFields (\<lambda>_. collectGarbageLocked n) csv root"
    define root2 where "root2 = updateAt (deleteChild (last csv)) (butlast csv) root1"
    have s1: "shrinks root1 root"
      unfolding root1_def by (rule updFields_shrinks)
    have eq: "collectGarbage root csv
                = (if csv \<noteq> [] \<and> canBeDeletedFromParent n1
                   then (fst (collectGarbage root2 (butlast csv)),
                         (csv, n1) # snd (collectGarbage root2 (butlast csv)))
                   else (root1, []))"
      using Some
      by (subst collectGarbage.simps) (simp add: Let_def n1_def root1_def root2_def)
    show ?thesis
    proof (cases "csv \<noteq> [] \<and> canBeDeletedFromParent n1")
      case False
      have "collectGarbage root csv = (root1, [])"
        by (simp only: eq if_not_P [OF False])
      then show ?thesis
        using s1 by simp
    next
      case True
      have s2: "shrinks root2 root1"
        unfolding root2_def by (rule updateAt_shrinks) (rule deleteChild_shrinks)
      have "shrinks (fst (collectGarbage root2 (butlast csv))) root2"
        using "1.IH" [OF Some n1_def root1_def True root2_def] .
      then have "shrinks (fst (collectGarbage root2 (butlast csv))) root"
        using s1 s2 shrinks_trans by blast
      moreover have "fst (collectGarbage root csv) = fst (collectGarbage root2 (butlast csv))"
        by (simp only: eq if_P [OF True] fst_conv)
      ultimately show ?thesis
        by simp
    qed
  qed
qed

lemma lazyWriterPut_shrinks:
  "shrinks (rootValue (lazyWriterPut cs c sfx key f)) (rootValue cs)"
proof (cases "fst (kv_Put (kv cs) (toStoreKey cs sfx)
                 (if valueExists f
                  then (BigEndian_PutUint64 (word_of_int (valueUpdateTime f)) @ [1])
                       @ (case val f of Some b \<Rightarrow> b | None \<Rightarrow> [])
                  else BigEndian_PutUint64 (word_of_int (valueUpdateTime f)) @ [0]))")
  case None
  then show ?thesis
    by (simp add: lazyWriterPut_def Let_def updFields_shrinks)
next
  case (Some err)
  then show ?thesis
    by (simp add: lazyWriterPut_def Let_def shrinks_refl)
qed

lemma lazyWriterPurge_shrinks:
  "shrinks (rootValue (lazyWriterPurge cs now p c)) (rootValue cs)"
  unfolding lazyWriterPurge_def
  using shrinks_trans [OF updFields_shrinks ConsistencyLoss_shrinks] by simp

lemma kvLazyWriterChild_shrinks:
  "shrinks (rootValue (fst (kvLazyWriterChild now p sfx d acc key))) (rootValue (fst acc))"
proof (cases "fieldsAt (rootValue (fst acc)) (p @ [key])")
  case None
  then show ?thesis
    by (simp add: kvLazyWriterChild_def Let_def shrinks_refl)
next
  case (Some f)
  then show ?thesis
    by (simp add: kvLazyWriterChild_def Let_def shrinks_refl lazyWriterPut_shrinks
                  lazyWriterPurge_shrinks)
qed

lemma kvLazyWriterChild_stack:
  "map fst (snd (kvLazyWriterChild now p sfx d acc key)) = map fst (snd acc) @ [p @ [key]]"
  by (simp add: kvLazyWriterChild_def Let_def)

lemma foldl_child_shrinks:
  "shrinks (rootValue (fst (foldl (kvLazyWriterChild now p sfx d) acc keys))) (rootValue (fst acc))"
proof (induction keys arbitrary: acc)
  case Nil
  then show ?case by (simp add: shrinks_refl)
next
  case (Cons k ks)
  have "shrinks (rootValue (fst (foldl (kvLazyWriterChild now p sfx d)
                                   (kvLazyWriterChild now p sfx d acc k) ks)))
                (rootValue (fst (kvLazyWriterChild now p sfx d acc k)))"
    by (rule Cons.IH)
  then have "shrinks (rootValue (fst (foldl (kvLazyWriterChild now p sfx d)
                                   (kvLazyWriterChild now p sfx d acc k) ks)))
                (rootValue (fst acc))"
    by (rule shrinks_trans) (rule kvLazyWriterChild_shrinks)
  then show ?case
    by simp
qed

lemma foldl_child_stack:
  "map fst (snd (foldl (kvLazyWriterChild now p sfx d) acc keys))
     = map fst (snd acc) @ map (\<lambda>k. p @ [k]) keys"
  by (induction keys arbitrary: acc) (simp_all add: kvLazyWriterChild_stack)

lemma sum_children_le:
  "distinct (map fst st) \<Longrightarrow>
   sum_list (map (\<lambda>k. case map_of st k of None \<Rightarrow> 0 | Some c \<Rightarrow> cnt c) (map fst st))
     = sum_list (map (\<lambda>e. cnt (snd e)) st)"
proof (induction st)
  case Nil
  then show ?case by simp
next
  case (Cons e st)
  obtain a b where e: "e = (a, b)" by (cases e)
  have notin: "a \<notin> set (map fst st)" and dist: "distinct (map fst st)"
    using Cons.prems e by auto
  have "map (\<lambda>k. case map_of (e # st) k of None \<Rightarrow> 0 | Some c \<Rightarrow> cnt c) (map fst st)
      = map (\<lambda>k. case map_of st k of None \<Rightarrow> 0 | Some c \<Rightarrow> cnt c) (map fst st)"
  proof (rule map_cong [OF refl])
    fix k
    assume "k \<in> set (map fst st)"
    then have "k \<noteq> a"
      using notin by blast
    then show "(case map_of (e # st) k of None \<Rightarrow> 0 | Some c \<Rightarrow> cnt c)
             = (case map_of st k of None \<Rightarrow> 0 | Some c \<Rightarrow> cnt c)"
      by (simp add: e)
  qed
  then have "sum_list (map (\<lambda>k. case map_of (e # st) k of None \<Rightarrow> 0 | Some c \<Rightarrow> cnt c) (map fst st))
      = sum_list (map (\<lambda>e. cnt (snd e)) st)"
    using Cons.IH [OF dist] by (simp only:)
  then show ?case
    by (simp add: e)
qed

lemma sum_cnt_clearjunk:
  "sum_list (map (\<lambda>e. cnt (snd e)) (AList.clearjunk st)) \<le> sum_list (map (\<lambda>e. cnt (snd e)) st)"
proof (induction st rule: AList.clearjunk.induct)
  case 1
  then show ?case by simp
next
  case (2 p ps)
  then show ?case
    using sum_cnt_delete [of "fst p" ps] by simp
qed

lemma sum_rangeKeys_less:
  "sum_list (map (\<lambda>k. cntAt n [k]) (rangeKeys n)) < cnt n"
proof -
  have "sum_list (map (\<lambda>k. cntAt n [k]) (rangeKeys n))
      = sum_list (map (\<lambda>k. case map_of (AList.clearjunk (store n)) k of None \<Rightarrow> 0 | Some c \<Rightarrow> cnt c)
                      (map fst (AList.clearjunk (store n))))"
    by (simp add: rangeKeys_def cntAt_Cons cntAt_Nil LoadChild_def map_of_clearjunk cong: option.case_cong)
  also have "\<dots> = sum_list (map (\<lambda>e. cnt (snd e)) (AList.clearjunk (store n)))"
    by (rule sum_children_le) simp
  also have "\<dots> \<le> sum_list (map (\<lambda>e. cnt (snd e)) (store n))"
    by (rule sum_cnt_clearjunk)
  also have "\<dots> < cnt n"
    by (cases n) simp
  finally show ?thesis .
qed

lemma cntAt_append:
  "nodeAt root p = Some n \<Longrightarrow> cntAt root (p @ q) = cntAt n q"
  by (simp add: cntAt_def nodeAt_append)

definition stackWeight :: "CacheStoreValue \<Rightarrow> csvptr list \<Rightarrow> nat" where
  "stackWeight root ps = sum_list (map (cntAt root) ps)"

lemma stackWeight_mono: "shrinks t' t \<Longrightarrow> stackWeight t' ps \<le> stackWeight t ps"
  unfolding stackWeight_def shrinks_def by (induction ps) (simp_all add: add_mono)

lemma stackWeight_append: "stackWeight t (ps @ qs) = stackWeight t ps + stackWeight t qs"
  by (simp add: stackWeight_def)

lemma stackWeight_children:
  "nodeAt root p = Some n \<Longrightarrow>
   stackWeight root (map (\<lambda>k. p @ [k]) (rangeKeys n)) < cntAt root p"
  using sum_rangeKeys_less [of n]
  by (simp add: stackWeight_def comp_def cntAt_append cntAt_def [of root p])

text \<open>
  The walk of \<^verbatim>\<open>kvLazyWriter\<close>: the loop over \<^verbatim>\<open>cacheStoreValueStack\<close>, whose three
  stacks are one list of triples, with the list \<^verbatim>\<open>lruTimes\<close>. A pointer on the stack that
  leads to no node is dropped.
\<close>

function kvLazyWriterWalk ::
  "int \<Rightarrow> CacheStore \<Rightarrow> lazyStack \<Rightarrow> int list \<Rightarrow> CacheStore \<times> int list" where
  "kvLazyWriterWalk now cs stack lruTimes =
     (if stack = [] then (cs, lruTimes)
      else (let currentStoreValue = fst (last stack);
                currentSuffix = fst (snd (last stack));
                currentDepth = snd (snd (last stack));
                stack1 = butlast stack
            in case nodeAt (rootValue cs) currentStoreValue of
                 None \<Rightarrow> kvLazyWriterWalk now cs stack1 lruTimes
               | Some cur \<Rightarrow>
                   (let lruTimes1 = lruTimes @ [valueUpdateTime (flds cur)];
                        noChildred = (rangeKeys cur = []);
                        acc = foldl (kvLazyWriterChild now currentStoreValue currentSuffix
                                       currentDepth)
                                (cs, stack1) (rangeKeys cur);
                        cs2 = (if noChildred
                               then (fst acc)\<lparr>rootValue :=
                                       fst (collectGarbage (rootValue (fst acc)) currentStoreValue)\<rparr>
                               else fst acc)
                    in kvLazyWriterWalk now cs2 (snd acc) lruTimes1)))"
  by pat_completeness auto
termination
proof (relation "measures [\<lambda>(now, cs, stack, ts). stackWeight (rootValue cs) (map fst stack),
                           \<lambda>(now, cs, stack, ts). length stack]", goal_cases)
  case 1
  then show ?case by simp
next
  case (2 now cs stack lruTimes p sfx d stack1)
  have st: "stack = stack1 @ [last stack]"
    using 2 by simp
  have "stackWeight (rootValue cs) (map fst stack)
          = stackWeight (rootValue cs) (map fst stack1)
            + stackWeight (rootValue cs) [fst (last stack)]"
    by (subst st) (simp add: stackWeight_append del: append_butlast_last_id)
  then have "stackWeight (rootValue cs) (map fst stack1)
               \<le> stackWeight (rootValue cs) (map fst stack)"
    by simp
  moreover have "length stack1 < length stack"
    using 2 by simp
  ultimately show ?case
    by auto
next
  case (3 now cs stack lruTimes p sfx d stack1 cur lruTimes1 noCh acc cs2)
  have st: "stack = stack1 @ [last stack]"
    using 3 by simp
  have "stackWeight (rootValue cs) (map fst stack)
          = stackWeight (rootValue cs) (map fst stack1)
            + stackWeight (rootValue cs) [fst (last stack)]"
    by (subst st) (simp add: stackWeight_append del: append_butlast_last_id)
  then have w0: "stackWeight (rootValue cs) (map fst stack)
            = stackWeight (rootValue cs) (map fst stack1) + cntAt (rootValue cs) p"
    using 3 by (simp add: stackWeight_def)
  have sh1: "shrinks (rootValue (fst acc)) (rootValue cs)"
    using foldl_child_shrinks [of now p sfx d "(cs, stack1)" "rangeKeys cur"] 3 by simp
  have sh2: "shrinks (rootValue cs2) (rootValue cs)"
  proof (cases noCh)
    case True
    then have "rootValue cs2 = fst (collectGarbage (rootValue (fst acc)) p)"
      using 3 by simp
    then show ?thesis
      using sh1 collectGarbage_shrinks shrinks_trans by metis
  next
    case False
    then show ?thesis
      using sh1 3 by simp
  qed
  have stk: "map fst (snd acc) = map fst stack1 @ map (\<lambda>k. p @ [k]) (rangeKeys cur)"
    using foldl_child_stack [of now p sfx d "(cs, stack1)" "rangeKeys cur"] 3 by simp
  have "stackWeight (rootValue cs2) (map fst (snd acc))
          \<le> stackWeight (rootValue cs) (map fst (snd acc))"
    using sh2 by (rule stackWeight_mono)
  also have "\<dots> = stackWeight (rootValue cs) (map fst stack1)
                  + stackWeight (rootValue cs) (map (\<lambda>k. p @ [k]) (rangeKeys cur))"
    by (simp add: stk stackWeight_append)
  also have "\<dots> < stackWeight (rootValue cs) (map fst stack1) + cntAt (rootValue cs) p"
    using stackWeight_children [of "rootValue cs" p cur] 3 by simp
  finally show ?case
    using w0 by simp
qed

declare kvLazyWriterWalk.simps [simp del]

text \<open>
  One pass of \<^verbatim>\<open>kvLazyWriter\<close>: the walk from the root, then the threshold.
  \<^verbatim>\<open>sort.Slice\<close> with the comparison \<^verbatim>\<open>lruTimes[i] > lruTimes[j]\<close> sorts in descending
  order. Indexing a slice out of its range panics.
\<close>

definition sortSliceDesc :: "int list \<Rightarrow> int list" where
  "sortSliceDesc xs = rev (sort xs)"

definition sliceIndex :: "int list \<Rightarrow> int \<Rightarrow> error + int" where
  "sliceIndex xs i = (if 0 \<le> i \<and> i < int (length xs) then Inr (xs ! nat i) else Inl IndexOutOfRange)"

definition kvLazyWriterPass :: "int \<Rightarrow> CacheStore \<Rightarrow> error + CacheStore" where
  "kvLazyWriterPass now cs =
     (let r = kvLazyWriterWalk now cs [([], [], 0)] [];
          cs1 = fst r;
          lruTimes = sortSliceDesc (snd r);
          t = (if int (length lruTimes) > lruSize cs1
               then sliceIndex lruTimes (lruSize cs1 - 1)
               else sliceIndex lruTimes (int (length lruTimes) - 1))
      in case t of
           Inl e \<Rightarrow> Inl e
         | Inr v \<Rightarrow> Inr (cs1\<lparr>lruTresholdTime := v, valuesInCache := int (length lruTimes)\<rparr>))"

subsection \<open>GetKeysByPattern\<close>

text \<open>
  The Go map \<^verbatim>\<open>keys\<close> is a list without repetitions. \<^verbatim>\<open>appendKeysFromKV\<close> reads the
  updates of a watch up to the first nil entry or the first value shorter than 9 bytes.
\<close>

definition keysInsert :: "string \<Rightarrow> string list \<Rightarrow> string list" where
  "keysInsert k keys = (if k \<in> set keys then keys else keys @ [k])"

fun appendEntries ::
  "CacheStore \<Rightarrow> (string \<times> bytes) option list \<Rightarrow> string list \<Rightarrow> string list" where
  "appendEntries cs [] keys = keys"
| "appendEntries cs (None # es) keys = keys"
| "appendEntries cs (Some entry # es) keys =
     (if length (snd entry) \<ge> 9
      then appendEntries cs es (keysInsert (fromStoreKey cs (fst entry)) keys)
      else keys)"

definition appendKeysFromKV ::
  "CacheStore \<Rightarrow> string \<Rightarrow> string list \<Rightarrow> string list \<times> CacheStore" where
  "appendKeysFromKV cs pattern keys =
     (case kv_Watch (kv cs) (toStoreKey cs pattern) of
        Inr updates \<Rightarrow> (appendEntries cs updates keys, cs)
      | Inl err \<Rightarrow>
          (keys, cs\<lparr>stdout := stdout cs @
                   [''GetKeysByPattern kv.Watch error '' @ KVError_Error err]\<rparr>))"

definition CompareAndSwapLossTime :: "int \<Rightarrow> int \<Rightarrow> CSVFields \<Rightarrow> CSVFields" where
  "CompareAndSwapLossTime old new f =
     (if storeConsistencyWithKVLossTime f = old
      then f\<lparr>storeConsistencyWithKVLossTime := new\<rparr> else f)"

definition patternStarChild ::
  "CacheStoreValue \<Rightarrow> string \<Rightarrow> bool \<times> string list \<Rightarrow> string \<Rightarrow> bool \<times> string list" where
  "patternStarChild parent keyWithoutLastToken acc key =
     (case LoadChild parent key of
        None \<Rightarrow> acc
      | Some childCSV \<Rightarrow>
          ((if storeConsistencyWithKVLossTime (flds childCSV) > 0 then False else fst acc),
           (if valueExists (flds childCSV)
            then keysInsert (keyWithoutLastToken @ key) (snd acc) else snd acc)))"

definition patternStar ::
  "CacheStore \<Rightarrow> string \<Rightarrow> csvptr \<Rightarrow> string list \<times> CacheStore" where
  "patternStar cs pattern p =
     (case nodeAt (rootValue cs) p of
        None \<Rightarrow> ([], cs)
      | Some parent \<Rightarrow>
          (let keyWithoutLastToken = take (length pattern - 1) pattern;
               consistencyWithKVLossTime = storeConsistencyWithKVLossTime (flds parent);
               r = foldl (patternStarChild parent keyWithoutLastToken) (True, [])
                     (rangeKeys parent);
               childrenStoresAreConsistentWithKV = fst r;
               keys = snd r
           in if consistencyWithKVLossTime > 0
              then (let keysCountBefore = length keys;
                        a = appendKeysFromKV cs pattern keys;
                        keysCountAfter = length (fst a)
                    in if keysCountBefore = keysCountAfter \<and> childrenStoresAreConsistentWithKV
                       then (fst a,
                             (snd a)\<lparr>rootValue :=
                                updFields (CompareAndSwapLossTime consistencyWithKVLossTime 0) p
                                  (rootValue (snd a))\<rparr>)
                       else a)
              else (keys, cs)))"

definition patternRecursiveChild ::
  "CacheStoreValue \<Rightarrow> csvptr \<Rightarrow> string \<Rightarrow> nat \<Rightarrow> lazyStack \<times> string list \<Rightarrow> string
   \<Rightarrow> lazyStack \<times> string list" where
  "patternRecursiveChild root currentStoreValue currentSuffix currentDepth acc key =
     (let newSuffix = (if currentDepth = 0 then currentSuffix @ key
                       else currentSuffix @ ''.'' @ key);
          child = currentStoreValue @ [key]
      in (fst acc @ [(child, newSuffix, currentDepth + 1)],
          (case fieldsAt root child of
             None \<Rightarrow> snd acc
           | Some f \<Rightarrow> if valueExists f then keysInsert newSuffix (snd acc) else snd acc)))"

lemma patternRecursiveChild_stack:
  "map fst (fst (foldl (patternRecursiveChild root p sfx d) acc keys))
     = map fst (fst acc) @ map (\<lambda>k. p @ [k]) keys"
  by (induction keys arbitrary: acc) (simp_all add: patternRecursiveChild_def Let_def)

function patternRecursiveWalk ::
  "CacheStoreValue \<Rightarrow> lazyStack \<Rightarrow> (csvptr \<times> int) list \<Rightarrow> string list
   \<Rightarrow> (csvptr \<times> int) list \<times> string list" where
  "patternRecursiveWalk root stack subs keys =
     (if stack = [] then (subs, keys)
      else (let currentStoreValue = fst (last stack);
                currentSuffix = fst (snd (last stack));
                currentDepth = snd (snd (last stack));
                stack1 = butlast stack
            in case nodeAt root currentStoreValue of
                 None \<Rightarrow> patternRecursiveWalk root stack1 subs keys
               | Some cur \<Rightarrow>
                   (let t = storeConsistencyWithKVLossTime (flds cur);
                        subs1 = (if t > 0 then AList.update currentStoreValue t subs else subs);
                        acc = foldl (patternRecursiveChild root currentStoreValue currentSuffix
                                       currentDepth)
                                (stack1, keys) (rangeKeys cur)
                    in patternRecursiveWalk root (fst acc) subs1 (snd acc))))"
  by pat_completeness auto
termination
proof (relation "measures [\<lambda>(root, stack, subs, keys). stackWeight root (map fst stack),
                           \<lambda>(root, stack, subs, keys). length stack]", goal_cases)
  case 1
  then show ?case by simp
next
  case (2 root stack subs keys p sfx d stack1)
  have st: "stack = stack1 @ [last stack]"
    using 2 by simp
  have "stackWeight root (map fst stack)
          = stackWeight root (map fst stack1) + stackWeight root [fst (last stack)]"
    by (subst st) (simp add: stackWeight_append del: append_butlast_last_id)
  then have "stackWeight root (map fst stack1) \<le> stackWeight root (map fst stack)"
    by simp
  moreover have "length stack1 < length stack"
    using 2 by simp
  ultimately show ?case
    by auto
next
  case (3 root stack subs keys p sfx d stack1 cur t subs1 acc)
  have st: "stack = stack1 @ [last stack]"
    using 3 by simp
  have "stackWeight root (map fst stack)
          = stackWeight root (map fst stack1) + stackWeight root [fst (last stack)]"
    by (subst st) (simp add: stackWeight_append del: append_butlast_last_id)
  then have w0: "stackWeight root (map fst stack)
            = stackWeight root (map fst stack1) + cntAt root p"
    using 3 by (simp add: stackWeight_def)
  have stk: "map fst (fst acc) = map fst stack1 @ map (\<lambda>k. p @ [k]) (rangeKeys cur)"
    using patternRecursiveChild_stack [of root p sfx d "(stack1, keys)" "rangeKeys cur"] 3
    by simp
  have "stackWeight root (map fst (fst acc))
          = stackWeight root (map fst stack1)
            + stackWeight root (map (\<lambda>k. p @ [k]) (rangeKeys cur))"
    by (simp add: stk stackWeight_append)
  also have "\<dots> < stackWeight root (map fst stack1) + cntAt root p"
    using stackWeight_children [of root p cur] 3 by simp
  finally show ?case
    using w0 by simp
qed

declare patternRecursiveWalk.simps [simp del]

definition patternRecursive ::
  "CacheStore \<Rightarrow> string \<Rightarrow> csvptr \<Rightarrow> string list \<times> CacheStore" where
  "patternRecursive cs pattern p =
     (let keyWithoutLastToken = take (length pattern - 1) pattern;
          w = patternRecursiveWalk (rootValue cs) [(p, keyWithoutLastToken, 0)] [] [];
          allSubCSVsToConsistencyWithKVLossTime = fst w;
          inconsistencyWithKVExistsOnSubLevel = (fst w \<noteq> []);
          keys = snd w
      in if inconsistencyWithKVExistsOnSubLevel
         then (let keysCountBefore = length keys;
                   a = appendKeysFromKV cs pattern keys;
                   keysCountAfter = length (fst a)
               in if keysCountBefore = keysCountAfter
                  then (fst a,
                        (snd a)\<lparr>rootValue :=
                           foldl (\<lambda>root e. updFields (CompareAndSwapLossTime (snd e) 0) (fst e) root)
                             (rootValue (snd a)) allSubCSVsToConsistencyWithKVLossTime\<rparr>)
                  else a)
         else (keys, cs))"

definition patternLiteral ::
  "CacheStore \<Rightarrow> string \<Rightarrow> csvptr \<Rightarrow> string \<Rightarrow> string list \<times> CacheStore" where
  "patternLiteral cs pattern p keyLastToken =
     (case nodeAt (rootValue cs) p of
        None \<Rightarrow> ([], cs)
      | Some parent \<Rightarrow>
          (let consistencyWithKVLossTime = storeConsistencyWithKVLossTime (flds parent);
               keys = (case LoadChild parent keyLastToken of
                         Some csv \<Rightarrow> keysInsert pattern []
                       | None \<Rightarrow> [])
           in if consistencyWithKVLossTime > 0
              then appendKeysFromKV cs pattern keys
              else (keys, cs)))"

definition patternNoLevel :: "CacheStore \<Rightarrow> string \<Rightarrow> string list \<times> CacheStore" where
  "patternNoLevel cs pattern =
     (case nodeAt (rootValue cs) (getLastExistingCacheStoreValueByKey (rootValue cs) pattern) of
        Some ancestor \<Rightarrow>
          if storeConsistencyWithKVLossTime (flds ancestor) > 0
          then appendKeysFromKV cs pattern []
          else ([], cs)
      | None \<Rightarrow>
          ([], cs\<lparr>stdout := stdout cs @
                 [''ERROR GetKeysByPattern: getLastExistingCacheStoreValueByKey returns nil'']\<rparr>))"

definition GetKeysByPattern :: "CacheStore \<Rightarrow> string \<Rightarrow> string list \<times> CacheStore" where
  "GetKeysByPattern cs pattern =
     (case getLastKeyTokenAndItsParentCacheStoreValue (rootValue cs) 0 pattern False of
        (keyLastToken, parent, root1) \<Rightarrow>
          (case parent of
             None \<Rightarrow> patternNoLevel cs pattern
           | Some p \<Rightarrow>
               if length keyLastToken > 0
               then (if keyLastToken = ''*'' then patternStar cs pattern p
                     else if keyLastToken = ''>'' then patternRecursive cs pattern p
                     else patternLiteral cs pattern p keyLastToken)
               else patternNoLevel cs pattern))"

text \<open>
  The cache that \<^verbatim>\<open>NewCacheStore\<close> builds, before the watcher has delivered anything;
  the two options it reads from \<^verbatim>\<open>cacheConfig\<close> are arguments.
\<close>

definition NewCacheStore :: "string \<Rightarrow> int \<Rightarrow> KV \<Rightarrow> CacheStore" where
  "NewCacheStore kvPrefix lruSz b =
     \<lparr>kvStorePrefix = kvPrefix, lruSize = lruSz, kv = b,
      rootValue = CSV \<lparr>val = None, valueExists = False, purgeState = 0,
                       storeConsistencyWithKVLossTime = 0, valueUpdateTime = - 1,
                       notifyUpdates = [], syncNeeded = False, syncedWithKV = True\<rparr> [],
      lruTresholdTime = 0, valuesInCache = 0, transactions = [], stdout = []\<rparr>"

section \<open>Pointers, fields and the path loops\<close>

lemma nodeAt_snoc:
  "nodeAt n (p @ [k]) = (case nodeAt n p of None \<Rightarrow> None | Some c \<Rightarrow> LoadChild c k)"
  by (simp add: nodeAt_append split: option.splits)

lemma nodeAt_prefix_Some:
  "nodeAt n (p @ q) = Some c \<Longrightarrow> \<exists>m. nodeAt n p = Some m"
  by (simp add: nodeAt_append split: option.splits)

lemma fieldsAt_updFields:
  "fieldsAt (updFields g p t) q
     = (if q = p then map_option g (fieldsAt t p) else fieldsAt t q)"
proof (induction p arbitrary: t q)
  case Nil
  show ?case
    by (cases q) (simp_all add: fieldsAt_def updFields_def mapFields_def LoadChild_def)
next
  case (Cons k ks)
  show ?case
  proof (cases "LoadChild t k")
    case None
    then show ?thesis
      by (simp add: fieldsAt_def updFields_def)
  next
    case (Some c)
    have IH: "\<And>qs. fieldsAt (updFields g ks c) qs
                 = (if qs = ks then map_option g (fieldsAt c ks) else fieldsAt c qs)"
      by (rule Cons.IH)
    show ?thesis
    proof (cases q)
      case Nil
      then show ?thesis
        using Some by (simp add: fieldsAt_def updFields_def)
    next
      case (Cons k' qs)
      show ?thesis
      proof (cases "k' = k")
        case True
        then show ?thesis
          using Some Cons IH [of qs]
          by (simp add: fieldsAt_def updFields_def LoadChild_def update_conv')
      next
        case False
        then show ?thesis
          using Some Cons
          by (simp add: fieldsAt_def updFields_def LoadChild_def update_conv')
      qed
    qed
  qed
qed

lemma nodeAt_updFields_None:
  "nodeAt (updFields g p t) q = None \<longleftrightarrow> nodeAt t q = None"
  using fieldsAt_updFields [of g p t q]
  by (cases "q = p") (auto simp: fieldsAt_def)

lemma nodeAt_updFields_other:
  "\<not> prefix q p \<Longrightarrow> nodeAt (updFields g p t) q = nodeAt t q"
proof (induction p arbitrary: t q)
  case Nil
  then show ?case
    by (cases q) (simp_all add: updFields_def mapFields_def LoadChild_def)
next
  case (Cons k ks)
  then obtain k' qs where q: "q = k' # qs"
    by (cases q) auto
  show ?case
  proof (cases "LoadChild t k")
    case None
    then show ?thesis
      by (simp add: updFields_def)
  next
    case (Some c)
    show ?thesis
    proof (cases "k' = k")
      case True
      then have "\<not> prefix qs ks"
        using Cons.prems q by simp
      then have "nodeAt (updFields g ks c) qs = nodeAt c qs"
        by (rule Cons.IH)
      then show ?thesis
        using Some q True by (simp add: updFields_def LoadChild_def update_conv')
    next
      case False
      then show ?thesis
        using Some q by (simp add: updFields_def LoadChild_def update_conv')
    qed
  qed
qed

lemma nodeAt_updFields_same:
  "nodeAt t p = Some n \<Longrightarrow> nodeAt (updFields g p t) p = Some (CSV (g (flds n)) (store n))"
proof (induction p arbitrary: t)
  case Nil
  then show ?case
    by (simp add: updFields_def mapFields_def)
next
  case (Cons k ks)
  then obtain c where c: "LoadChild t k = Some c" and n: "nodeAt c ks = Some n"
    by (auto split: option.splits)
  have "nodeAt (updFields g ks c) ks = Some (CSV (g (flds n)) (store n))"
    using n by (rule Cons.IH)
  then show ?case
    using c by (simp add: updFields_def LoadChild_def update_conv')
qed

lemma nodeAt_StoreChild_new:
  "nodeAt root p = Some n \<Longrightarrow> nodeAt (StoreChild root p key child) (p @ [key]) = Some child"
proof (induction p arbitrary: root)
  case Nil
  then show ?case
    by (simp add: StoreChild_def LoadChild_def update_conv')
next
  case (Cons k ks)
  then obtain c where c: "LoadChild root k = Some c" and n: "nodeAt c ks = Some n"
    by (auto split: option.splits)
  have "nodeAt (StoreChild c ks key child) (ks @ [key]) = Some child"
    using n by (rule Cons.IH)
  then show ?case
    using c by (simp add: StoreChild_def LoadChild_def update_conv')
qed

lemma strings_Split_not_Nil: "strings_Split s sep \<noteq> []"
  by (induction s) (auto split: list.splits)

lemma strings_Split_snoc:
  "\<exists>pre l. strings_Split s sep = pre @ [l]"
  using strings_Split_not_Nil [of s sep] by (metis append_butlast_last_id)

lemma getLastKeyTokenLoop_found:
  "nodeAt root (cur @ pre) \<noteq> None \<Longrightarrow>
   getLastKeyTokenLoop root now c (pre @ [l]) cur = (l, Some (cur @ pre), root)"
proof (induction pre arbitrary: cur)
  case Nil
  then show ?case by simp
next
  case (Cons t pre)
  obtain t' ts where ts: "pre @ [l] = t' # ts"
    by (cases "pre @ [l]") auto
  have "nodeAt root ((cur @ [t]) @ pre) \<noteq> None"
    using Cons.prems by simp
  then have rec: "getLastKeyTokenLoop root now c (pre @ [l]) (cur @ [t])
                    = (l, Some ((cur @ [t]) @ pre), root)"
    by (rule Cons.IH)
  have "nodeAt root (cur @ [t]) \<noteq> None"
    using \<open>nodeAt root ((cur @ [t]) @ pre) \<noteq> None\<close> nodeAt_prefix_Some by blast
  then obtain m where "nodeAt root (cur @ [t]) = Some m"
    by blast
  then have "getLastKeyTokenLoop root now c (t # t' # ts) cur
               = getLastKeyTokenLoop root now c (t' # ts) (cur @ [t])"
    by simp
  then show ?case
    using rec ts by simp
qed

lemma getLastKeyTokenLoop_missing:
  "nodeAt root cur \<noteq> None \<Longrightarrow> nodeAt root (cur @ pre) = None \<Longrightarrow>
   getLastKeyTokenLoop root now False (pre @ [l]) cur = ([], None, root)"
proof (induction pre arbitrary: cur)
  case Nil
  then show ?case by simp
next
  case (Cons t pre)
  obtain t' ts where ts: "pre @ [l] = t' # ts"
    by (cases "pre @ [l]") auto
  show ?case
  proof (cases "nodeAt root (cur @ [t])")
    case None
    then have "getLastKeyTokenLoop root now False (t # t' # ts) cur = ([], None, root)"
      by simp
    then show ?thesis
      using ts by simp
  next
    case (Some m)
    then have "getLastKeyTokenLoop root now False (t # t' # ts) cur
                 = getLastKeyTokenLoop root now False (t' # ts) (cur @ [t])"
      by simp
    moreover have "getLastKeyTokenLoop root now False (pre @ [l]) (cur @ [t]) = ([], None, root)"
      using Cons.IH [of "cur @ [t]"] Some Cons.prems by simp
    ultimately show ?thesis
      using ts by simp
  qed
qed

lemma getLastKeyTokenLoop_create:
  "nodeAt root cur \<noteq> None \<Longrightarrow>
   \<exists>root'. getLastKeyTokenLoop root now True (pre @ [l]) cur = (l, Some (cur @ pre), root')
           \<and> nodeAt root' (cur @ pre) \<noteq> None"
proof (induction pre arbitrary: cur root)
  case Nil
  then show ?case by simp
next
  case (Cons t pre)
  obtain t' ts where ts: "pre @ [l] = t' # ts"
    by (cases "pre @ [l]") auto
  show ?case
  proof (cases "nodeAt root (cur @ [t])")
    case (Some m)
    then have step: "getLastKeyTokenLoop root now True (t # t' # ts) cur
                 = getLastKeyTokenLoop root now True (t' # ts) (cur @ [t])"
      by simp
    have "nodeAt root (cur @ [t]) \<noteq> None"
      using Some by simp
    then obtain root' where
      "getLastKeyTokenLoop root now True (pre @ [l]) (cur @ [t])
         = (l, Some ((cur @ [t]) @ pre), root')" and "nodeAt root' ((cur @ [t]) @ pre) \<noteq> None"
      using Cons.IH [of root "cur @ [t]"] by blast
    then show ?thesis
      using step ts by simp
  next
    case None
    define root1 where "root1 = StoreChild root cur t (newCSV None False False now)"
    have step: "getLastKeyTokenLoop root now True (t # t' # ts) cur
                 = getLastKeyTokenLoop root1 now True (t' # ts) (cur @ [t])"
      using None by (simp add: root1_def)
    obtain n where "nodeAt root cur = Some n"
      using Cons.prems by (cases "nodeAt root cur") auto
    then have "nodeAt root1 (cur @ [t]) \<noteq> None"
      unfolding root1_def using nodeAt_StoreChild_new by simp
    then obtain root' where
      "getLastKeyTokenLoop root1 now True (pre @ [l]) (cur @ [t])
         = (l, Some ((cur @ [t]) @ pre), root')" and "nodeAt root' ((cur @ [t]) @ pre) \<noteq> None"
      using Cons.IH [of root1 "cur @ [t]"] by blast
    then show ?thesis
      using step ts by simp
  qed
qed

lemma getLastKeyLoop_eq:
  "nodeAt root cur \<noteq> None \<Longrightarrow>
   getLastKeyLoop root ts cur = (if nodeAt root (cur @ ts) \<noteq> None then Some (cur @ ts) else None)"
proof (induction ts arbitrary: cur)
  case Nil
  then show ?case by simp
next
  case (Cons t ts)
  show ?case
  proof (cases "nodeAt root (cur @ [t])")
    case None
    then have "nodeAt root ((cur @ [t]) @ ts) = None"
      by (simp add: nodeAt_append del: append_assoc)
    then show ?thesis
      using None by simp
  next
    case (Some m)
    then show ?thesis
      using Cons.IH [of "cur @ [t]"] by simp
  qed
qed

lemma getLastKeyCacheStoreValue_eq:
  "getLastKeyCacheStoreValue root key
     = (if nodeAt root (strings_Split key CHR ''.'') \<noteq> None
        then Some (strings_Split key CHR ''.'') else None)"
  unfolding getLastKeyCacheStoreValue_def
  using getLastKeyLoop_eq [of root "[]" "strings_Split key CHR ''.''"] by simp

text \<open>
  What the readers of the cache find under a key: the node under the tokens of the key,
  when the last token is not empty.
\<close>

lemma lookup_without_create:
  assumes "strings_Split key CHR ''.'' = pre @ [l]"
  shows "getLastKeyTokenAndItsParentCacheStoreValue root now key False
           = (if nodeAt root pre \<noteq> None then (l, Some pre, root) else ([], None, root))"
  unfolding getLastKeyTokenAndItsParentCacheStoreValue_def assms
  using getLastKeyTokenLoop_found [of root "[]" pre now False l]
        getLastKeyTokenLoop_missing [of root "[]" pre now l]
  by simp

lemma loadChildByKey_eq:
  assumes "strings_Split key CHR ''.'' = pre @ [l]"
  shows "loadChildByKey root key
           = (if l \<noteq> [] then map_option (Pair (pre @ [l])) (nodeAt root (pre @ [l])) else None)"
proof (cases "nodeAt root pre")
  case None
  then have "nodeAt root (pre @ [l]) = None"
    by (simp add: nodeAt_append)
  then show ?thesis
    using None by (simp add: loadChildByKey_def lookup_without_create [OF assms])
next
  case (Some m)
  then show ?thesis
    by (simp add: loadChildByKey_def lookup_without_create [OF assms] split: option.splits)
qed

lemma GetValueUpdateTime_eq:
  assumes "strings_Split key CHR ''.'' = pre @ [l]"
  shows "GetValueUpdateTime cs key
           = (case (if l \<noteq> [] then fieldsAt (rootValue cs) (pre @ [l]) else None) of
                None \<Rightarrow> - 1 | Some f \<Rightarrow> valueUpdateTime f)"
  by (simp add: GetValueUpdateTime_def loadChildByKey_eq [OF assms] fieldsAt_def
           split: option.splits)

section \<open>Decoding the values of the bucket\<close>

lemma GetValueCacheMiss_short:
  "kv_Get (kv cs) (toStoreKey cs key) = Inr (k, valueBytes) \<Longrightarrow> length valueBytes < 9 \<Longrightarrow>
   GetValueCacheMiss cs now key = (Inl SliceBoundsOutOfRange, cs)"
  by (simp add: GetValueCacheMiss_def)

lemma GetValue_short:
  assumes "loadChildByKey (rootValue cs) key = None"
      and "kv_Get (kv cs) (toStoreKey cs key) = Inr (k, valueBytes)"
      and "length valueBytes < 9"
  shows "GetValue cs now key = (Inl SliceBoundsOutOfRange, cs)"
  using assms by (simp add: GetValue_def GetValueCacheMiss_short)

lemma storeUpdatesHandler_short:
  "length valueBytes < 9 \<Longrightarrow> valueBytes \<noteq> [] \<Longrightarrow>
   storeUpdatesHandler cs now (k, valueBytes)
     = cs\<lparr>stdout := stdout cs @
            [''ERROR storeUpdatesHandler: received value without time and append flag!'']\<rparr>"
  by (simp add: storeUpdatesHandler_def)

text \<open>
  C7 (the code departs from it). The claim is that no byte string of the bucket makes the
  watcher or the miss path of \<^verbatim>\<open>GetValue\<close> slice out of bounds. The watcher is as claimed
  (\<open>storeUpdatesHandler_short\<close>), but \<^verbatim>\<open>GetValue\<close> takes \<^verbatim>\<open>valueBytes[9:]\<close> before it tests
  the length: on an empty cache over a bucket that holds the three bytes 0, 0, 1 under
  \<^verbatim>\<open>st.a\<close>, \<^verbatim>\<open>GetValue("a")\<close> ends in the slice bounds panic.
\<close>

theorem GetValue_short_value_panics:
  "GetValue (NewCacheStore ''st'' 2 \<lparr>kvData = [(''st.a'', [0, 0, 1])], kvDown = False\<rparr>) 100 ''a''
     = (Inl SliceBoundsOutOfRange,
        NewCacheStore ''st'' 2 \<lparr>kvData = [(''st.a'', [0, 0, 1])], kvDown = False\<rparr>)"
  by (simp add: GetValue_def GetValueCacheMiss_def loadChildByKey_def
        getLastKeyTokenAndItsParentCacheStoreValue_def NewCacheStore_def kv_Get_def
        toStoreKey_def LoadChild_def)

section \<open>The watcher\<close>

text \<open>
  The stores of the examples: an empty cache with the prefix \<^verbatim>\<open>st\<close> and room for two
  values over an empty bucket, and the same cache after \<^verbatim>\<open>SetValue("a", [1, 2], true, 500, "")\<close>.
\<close>

definition emptyBucket :: KV where
  "emptyBucket = \<lparr>kvData = [], kvDown = False\<rparr>"

definition emptyStore :: CacheStore where
  "emptyStore = NewCacheStore ''st'' 2 emptyBucket"

definition storeWithA :: CacheStore where
  "storeWithA = SetValue emptyStore 100 ''a'' [1, 2] True 500 []"

lemma TryPurgeConfirm_frame:
  "val (TryPurgeConfirm f) = val f" "valueExists (TryPurgeConfirm f) = valueExists f"
  "syncNeeded (TryPurgeConfirm f) = syncNeeded f" "syncedWithKV (TryPurgeConfirm f) = syncedWithKV f"
  "valueUpdateTime (TryPurgeConfirm f) = valueUpdateTime f"
  "storeConsistencyWithKVLossTime (TryPurgeConfirm f) = storeConsistencyWithKVLossTime f"
  "notifyUpdates (TryPurgeConfirm f) = notifyUpdates f"
  by (simp_all add: TryPurgeConfirm_def)

lemma TryPurgeReady_frame:
  "val (TryPurgeReady f) = val f" "valueExists (TryPurgeReady f) = valueExists f"
  "syncNeeded (TryPurgeReady f) = syncNeeded f" "syncedWithKV (TryPurgeReady f) = syncedWithKV f"
  "valueUpdateTime (TryPurgeReady f) = valueUpdateTime f"
  "storeConsistencyWithKVLossTime (TryPurgeReady f) = storeConsistencyWithKVLossTime f"
  "notifyUpdates (TryPurgeReady f) = notifyUpdates f"
  by (simp_all add: TryPurgeReady_def)

lemma updFields_frame:
  assumes "\<And>f. sel (g f) = sel f"
  shows "map_option sel (fieldsAt (updFields g p t) q) = map_option sel (fieldsAt t q)"
  by (cases "fieldsAt t p") (simp_all add: fieldsAt_updFields assms)

text \<open>
  C10. An entry of the bucket that carries a time (9 bytes or more) not later than the
  time the cache has for the key: when it is strictly older, the handler returns the cache
  as it was; when it is not later, no node of the tree changes its value bytes or its
  \<^verbatim>\<open>valueExists\<close> flag.
\<close>

theorem storeUpdatesHandler_not_newer:
  assumes "9 \<le> length valueBytes"
      and "sint (BigEndian_Uint64 (take 8 valueBytes)) \<le> GetValueUpdateTime cs (fromStoreKey cs k)"
  shows "(sint (BigEndian_Uint64 (take 8 valueBytes)) < GetValueUpdateTime cs (fromStoreKey cs k)
            \<longrightarrow> storeUpdatesHandler cs now (k, valueBytes) = cs)
         \<and> (\<forall>q. map_option val (fieldsAt (rootValue (storeUpdatesHandler cs now (k, valueBytes))) q)
                   = map_option val (fieldsAt (rootValue cs) q)
                \<and> map_option valueExists
                     (fieldsAt (rootValue (storeUpdatesHandler cs now (k, valueBytes))) q)
                   = map_option valueExists (fieldsAt (rootValue cs) q))"
proof (cases "sint (BigEndian_Uint64 (take 8 valueBytes)) < GetValueUpdateTime cs (fromStoreKey cs k)")
  case True
  then have "storeUpdatesHandler cs now (k, valueBytes) = cs"
    using assms(1) by (simp add: storeUpdatesHandler_def)
  then show ?thesis
    by simp
next
  case False
  then have eq: "sint (BigEndian_Uint64 (take 8 valueBytes))
                   = GetValueUpdateTime cs (fromStoreKey cs k)"
    using assms(2) by simp
  define g where "g = (\<lambda>f. TryPurgeConfirm (f\<lparr>syncedWithKV := True\<rparr>))"
  have gv: "\<And>f. val (g f) = val f" and ge: "\<And>f. valueExists (g f) = valueExists f"
    by (simp_all add: g_def TryPurgeConfirm_frame)
  have root: "rootValue (storeUpdatesHandler cs now (k, valueBytes))
                = (case getLastKeyCacheStoreValue (rootValue cs) (fromStoreKey cs k) of
                     Some csv \<Rightarrow> updFields g csv (rootValue cs)
                   | None \<Rightarrow> rootValue cs)"
    using assms(1) eq
    by (simp add: storeUpdatesHandler_def Let_def g_def split: option.splits)
  show ?thesis
    using False
    by (simp add: root updFields_frame [of val g, OF gv] updFields_frame [of valueExists g, OF ge]
             split: option.splits)
qed

theorem storeUpdatesHandler_not_newer_witness:
  "9 \<le> length (BigEndian_PutUint64 400 @ [1, 9])
   \<and> sint (BigEndian_Uint64 (take 8 (BigEndian_PutUint64 400 @ [1, 9])))
       < GetValueUpdateTime storeWithA (fromStoreKey storeWithA ''st.a'')
   \<and> storeUpdatesHandler storeWithA 600 (''st.a'', BigEndian_PutUint64 400 @ [1, 9]) = storeWithA
   \<and> fst (GetValue (storeUpdatesHandler storeWithA 600 (''st.a'', BigEndian_PutUint64 400 @ [1, 9]))
             700 ''a'') = Inr [1, 2]"
proof -
  have h1: "9 \<le> length (BigEndian_PutUint64 400 @ [1, 9])"
    by code_simp
  have h2: "sint (BigEndian_Uint64 (take 8 (BigEndian_PutUint64 400 @ [1, 9])))
              < GetValueUpdateTime storeWithA (fromStoreKey storeWithA ''st.a'')"
    by code_simp
  have h3: "sint (BigEndian_Uint64 (take 8 (BigEndian_PutUint64 400 @ [1, 9])))
              \<le> GetValueUpdateTime storeWithA (fromStoreKey storeWithA ''st.a'')"
    using h2 by simp
  have g: "fst (GetValue storeWithA 700 ''a'') = Inr [1, 2]"
    by code_simp
  show ?thesis
    using h1 h2 g storeUpdatesHandler_not_newer [OF h1 h3, of 600] by simp
qed

text \<open>
  C4 (as stated it does not hold). The claim: a node never has \<^verbatim>\<open>syncNeeded\<close> together
  with \<^verbatim>\<open>syncedWithKV\<close>, and the watcher clears \<^verbatim>\<open>syncNeeded\<close> when it sees the echo of a
  write at the same time. After \<^verbatim>\<open>SetValue("a", [1, 2], true, 500, "")\<close> the watcher receives
  the entry of \<^verbatim>\<open>st.a\<close> with the time 500: the node then has both flags set.
\<close>

theorem storeUpdatesHandler_echo_keeps_syncNeeded:
  "map_option (\<lambda>f. (syncNeeded f, syncedWithKV f))
     (fieldsAt (rootValue (storeUpdatesHandler storeWithA 600
                             (''st.a'', BigEndian_PutUint64 500 @ [1, 1, 2]))) [''a''])
     = Some (True, True)"
  by code_simp

lemma butlast_neq: "p \<noteq> [] \<Longrightarrow> butlast p \<noteq> p"
  by (metis length_butlast diff_less length_greater_0_conv less_numeral_extra(1) nat_neq_iff)

lemma fieldsAt_Put:
  "fieldsAt (Put root p v u t now) q
     = (if q = p then map_option (csvPut v u t now) (fieldsAt root p)
        else if p \<noteq> [] \<and> q = butlast p
        then map_option (notifySubscribers (last p) (Some v)) (fieldsAt root q)
        else fieldsAt root q)"
  using butlast_neq [of p] by (auto simp: Put_def Let_def fieldsAt_updFields)

lemma fieldsAt_Delete:
  "fieldsAt (Delete root p u t now) q
     = (if q = p then map_option (csvDelete u t now) (fieldsAt root p)
        else if p \<noteq> [] \<and> q = butlast p
        then map_option (notifySubscribers (last p) None) (fieldsAt root q)
        else fieldsAt root q)"
  using butlast_neq [of p] by (auto simp: Delete_def Let_def fieldsAt_updFields)

text \<open>
  C4, amended. \<^verbatim>\<open>Put\<close> and \<^verbatim>\<open>Delete\<close> leave the node they write with
  \<^verbatim>\<open>syncNeeded = updateInKV\<close> and \<^verbatim>\<open>syncedWithKV = !updateInKV\<close>. When the watcher
  receives an entry of 9 bytes or more whose time is the time the cache has for the key,
  and the node of the key is there, the node gets \<^verbatim>\<open>syncedWithKV = true\<close>, its
  \<^verbatim>\<open>purgeState\<close> goes from 1 to 2 when \<^verbatim>\<open>syncNeeded\<close> is not set, and its other fields,
  \<^verbatim>\<open>syncNeeded\<close> among them, stay as they were; so do the fields of every other node.
\<close>

theorem storeUpdatesHandler_echo:
  assumes "9 \<le> length valueBytes"
      and "sint (BigEndian_Uint64 (take 8 valueBytes)) = GetValueUpdateTime cs (fromStoreKey cs k)"
      and "fieldsAt (rootValue cs) (strings_Split (fromStoreKey cs k) CHR ''.'') = Some f"
  shows "fieldsAt (rootValue (storeUpdatesHandler cs now (k, valueBytes)))
           (strings_Split (fromStoreKey cs k) CHR ''.'')
           = Some (f\<lparr>syncedWithKV := True,
                     purgeState := (if \<not> syncNeeded f \<and> purgeState f = 1 then 2
                                    else purgeState f)\<rparr>)
         \<and> (\<forall>q. q \<noteq> strings_Split (fromStoreKey cs k) CHR ''.'' \<longrightarrow>
                fieldsAt (rootValue (storeUpdatesHandler cs now (k, valueBytes))) q
                  = fieldsAt (rootValue cs) q)
         \<and> map_option (\<lambda>g. (syncNeeded g, syncedWithKV g))
              (fieldsAt (Put (rootValue cs) (strings_Split (fromStoreKey cs k) CHR ''.'')
                           v updateInKV t now)
                 (strings_Split (fromStoreKey cs k) CHR ''.''))
             = Some (updateInKV, \<not> updateInKV)
         \<and> map_option (\<lambda>g. (syncNeeded g, syncedWithKV g))
              (fieldsAt (Delete (rootValue cs) (strings_Split (fromStoreKey cs k) CHR ''.'')
                           updateInKV t now)
                 (strings_Split (fromStoreKey cs k) CHR ''.''))
             = Some (updateInKV, \<not> updateInKV)"
proof -
  define p where "p = strings_Split (fromStoreKey cs k) CHR ''.''"
  define g where "g = (\<lambda>f. TryPurgeConfirm (f\<lparr>syncedWithKV := True\<rparr>))"
  have f: "fieldsAt (rootValue cs) p = Some f"
    using assms(3) by (simp add: p_def)
  have found: "getLastKeyCacheStoreValue (rootValue cs) (fromStoreKey cs k) = Some p"
    using assms(3) by (auto simp: getLastKeyCacheStoreValue_eq p_def fieldsAt_def)
  have root: "rootValue (storeUpdatesHandler cs now (k, valueBytes)) = updFields g p (rootValue cs)"
    using assms(1,2) found
    by (simp add: storeUpdatesHandler_def Let_def g_def)
  have gf: "g f = f\<lparr>syncedWithKV := True,
                    purgeState := (if \<not> syncNeeded f \<and> purgeState f = 1 then 2
                                   else purgeState f)\<rparr>"
    by (simp add: g_def TryPurgeConfirm_def)
  have c1: "fieldsAt (rootValue (storeUpdatesHandler cs now (k, valueBytes))) p
              = Some (f\<lparr>syncedWithKV := True,
                        purgeState := (if \<not> syncNeeded f \<and> purgeState f = 1 then 2
                                       else purgeState f)\<rparr>)"
    using f gf by (simp add: root fieldsAt_updFields)
  have c2: "\<forall>q. q \<noteq> p \<longrightarrow>
              fieldsAt (rootValue (storeUpdatesHandler cs now (k, valueBytes))) q
                = fieldsAt (rootValue cs) q"
    by (simp add: root fieldsAt_updFields)
  have c3: "map_option (\<lambda>g. (syncNeeded g, syncedWithKV g))
              (fieldsAt (Put (rootValue cs) p v updateInKV t now) p)
              = Some (updateInKV, \<not> updateInKV)"
    using f by (simp add: fieldsAt_Put csvPut_def)
  have c4: "map_option (\<lambda>g. (syncNeeded g, syncedWithKV g))
              (fieldsAt (Delete (rootValue cs) p updateInKV t now) p)
              = Some (updateInKV, \<not> updateInKV)"
    using f by (simp add: fieldsAt_Delete csvDelete_def Let_def)
  show ?thesis
    using c1 c2 c3 c4 unfolding p_def by blast
qed

theorem storeUpdatesHandler_echo_witness:
  "9 \<le> length (BigEndian_PutUint64 500 @ [1, 1, 2])
   \<and> sint (BigEndian_Uint64 (take 8 (BigEndian_PutUint64 500 @ [1, 1, 2])))
       = GetValueUpdateTime storeWithA (fromStoreKey storeWithA ''st.a'')
   \<and> map_option (\<lambda>g. (syncNeeded g, syncedWithKV g)) (fieldsAt (rootValue storeWithA) [''a''])
       = Some (True, False)
   \<and> map_option (\<lambda>g. (syncNeeded g, syncedWithKV g))
        (fieldsAt (rootValue (storeUpdatesHandler storeWithA 600
                                (''st.a'', BigEndian_PutUint64 500 @ [1, 1, 2]))) [''a''])
       = Some (True, True)
   \<and> fieldsAt (rootValue (storeUpdatesHandler storeWithA 600
                             (''st.a'', BigEndian_PutUint64 500 @ [1, 1, 2]))) []
       = fieldsAt (rootValue storeWithA) []"
proof -
  have h1: "9 \<le> length (BigEndian_PutUint64 500 @ [1, 1, 2])"
    by code_simp
  have h2: "sint (BigEndian_Uint64 (take 8 (BigEndian_PutUint64 500 @ [1, 1, 2])))
              = GetValueUpdateTime storeWithA (fromStoreKey storeWithA ''st.a'')"
    by code_simp
  have p: "strings_Split (fromStoreKey storeWithA ''st.a'') CHR ''.'' = [''a'']"
    by code_simp
  have h3: "fieldsAt (rootValue storeWithA) (strings_Split (fromStoreKey storeWithA ''st.a'') CHR ''.'')
              = Some \<lparr>val = Some [1, 2], valueExists = True, purgeState = 0,
                      storeConsistencyWithKVLossTime = 0, valueUpdateTime = 500,
                      notifyUpdates = [], syncNeeded = True, syncedWithKV = False\<rparr>"
    by code_simp
  show ?thesis
    using h1 h2 h3 storeUpdatesHandler_echo [OF h1 h2 h3, of 600] by (simp add: p)
qed

section \<open>The lazy writer\<close>

lemma kvLazyWriterChild_lruSize:
  "lruSize (fst (kvLazyWriterChild now p sfx d acc key)) = lruSize (fst acc)"
  by (simp add: kvLazyWriterChild_def lazyWriterPut_def lazyWriterPurge_def Let_def
           split: option.splits)

lemma foldl_child_lruSize:
  "lruSize (fst (foldl (kvLazyWriterChild now p sfx d) acc keys)) = lruSize (fst acc)"
  by (induction keys arbitrary: acc) (simp_all add: kvLazyWriterChild_lruSize)

lemma kvLazyWriterWalk_lruSize:
  "lruSize (fst (kvLazyWriterWalk now cs stack ts)) = lruSize cs"
proof (induction now cs stack ts rule: kvLazyWriterWalk.induct)
  case (1 now cs stack ts)
  show ?case
  proof (cases "stack = []")
    case True
    then show ?thesis
      by (subst kvLazyWriterWalk.simps) simp
  next
    case False
    show ?thesis
    proof (cases "nodeAt (rootValue cs) (fst (last stack))")
      case None
      have "lruSize (fst (kvLazyWriterWalk now cs (butlast stack) ts)) = lruSize cs"
        using "1.IH"(1) [OF False refl refl refl refl None] .
      then show ?thesis
        using False None by (subst kvLazyWriterWalk.simps) simp
    next
      case (Some cur)
      show ?thesis
        using False Some "1.IH"(2) [OF False refl refl refl refl Some refl refl refl refl]
        by (subst kvLazyWriterWalk.simps) (simp add: Let_def foldl_child_lruSize)
    qed
  qed
qed

lemma kvLazyWriterWalk_times:
  "\<exists>ts'. snd (kvLazyWriterWalk now cs stack ts) = ts @ ts'"
proof (induction now cs stack ts rule: kvLazyWriterWalk.induct)
  case (1 now cs stack ts)
  show ?case
  proof (cases "stack = []")
    case True
    then show ?thesis
      by (subst kvLazyWriterWalk.simps) simp
  next
    case False
    show ?thesis
    proof (cases "nodeAt (rootValue cs) (fst (last stack))")
      case None
      have "\<exists>ts'. snd (kvLazyWriterWalk now cs (butlast stack) ts) = ts @ ts'"
        using "1.IH"(1) [OF False refl refl refl refl None] .
      then show ?thesis
        using False None by (subst kvLazyWriterWalk.simps) simp
    next
      case (Some cur)
      show ?thesis
        using False Some "1.IH"(2) [OF False refl refl refl refl Some refl refl refl refl]
        by (subst kvLazyWriterWalk.simps) (auto simp: Let_def)
    qed
  qed
qed

lemma kvLazyWriterWalk_root:
  "\<exists>ts'. snd (kvLazyWriterWalk now cs [([], sfx, d)] [])
           = valueUpdateTime (flds (rootValue cs)) # ts'"
proof -
  define acc where
    "acc = foldl (kvLazyWriterChild now [] sfx d) (cs, []) (rangeKeys (rootValue cs))"
  define cs2 where
    "cs2 = (if rangeKeys (rootValue cs) = []
            then (fst acc)\<lparr>rootValue := fst (collectGarbage (rootValue (fst acc)) [])\<rparr>
            else fst acc)"
  have "kvLazyWriterWalk now cs [([], sfx, d)] []
          = kvLazyWriterWalk now cs2 (snd acc) [valueUpdateTime (flds (rootValue cs))]"
    by (subst kvLazyWriterWalk.simps) (simp add: Let_def acc_def cs2_def)
  then show ?thesis
    using kvLazyWriterWalk_times [of now cs2 "snd acc" "[valueUpdateTime (flds (rootValue cs))]"]
    by simp
qed






text \<open>
  The slice of the times is never empty. When \<^verbatim>\<open>lruSize\<close> is not positive the index
  \<^verbatim>\<open>lruSize - 1\<close> is outside it: the pass ends in the index panic.
\<close>

lemma kvLazyWriterPass_lruSize_not_positive:
  assumes "lruSize cs \<le> 0"
  shows "kvLazyWriterPass now cs = Inl IndexOutOfRange"
proof -
  obtain ts' where ts: "snd (kvLazyWriterWalk now cs [([], [], 0)] [])
                          = valueUpdateTime (flds (rootValue cs)) # ts'"
    using kvLazyWriterWalk_root by blast
  have sz: "lruSize (fst (kvLazyWriterWalk now cs [([], [], 0)] [])) = lruSize cs"
    by (rule kvLazyWriterWalk_lruSize)
  have len: "length (sortSliceDesc (snd (kvLazyWriterWalk now cs [([], [], 0)] [])))
               = Suc (length ts')"
    by (simp add: sortSliceDesc_def ts)
  show ?thesis
    using assms by (simp add: kvLazyWriterPass_def Let_def sz len sliceIndex_def)
qed

section \<open>Removal of nodes\<close>

lemma cnt_neq0: "cnt n \<noteq> 0"
  by (cases n) simp

lemma shrinks_None: "shrinks t' t \<Longrightarrow> nodeAt t q = None \<Longrightarrow> nodeAt t' q = None"
proof -
  assume s: "shrinks t' t" and n: "nodeAt t q = None"
  have "cntAt t' q \<le> cntAt t q"
    using s by (simp add: shrinks_def)
  then have "cntAt t' q = 0"
    using n by (simp add: cntAt_def)
  then show ?thesis
    by (cases "nodeAt t' q") (simp_all add: cntAt_def cnt_neq0)
qed

lemma fieldsAt_None: "fieldsAt t q = None \<longleftrightarrow> nodeAt t q = None"
  by (simp add: fieldsAt_def)

lemma fieldsAt_deleteChild:
  "fieldsAt (updateAt (deleteChild k) p t) q
     = (if prefix (p @ [k]) q then None else fieldsAt t q)"
proof (induction p arbitrary: t q)
  case Nil
  show ?case
    by (cases q) (simp_all add: fieldsAt_def deleteChild_def LoadChild_def delete_conv')
next
  case (Cons a ps)
  show ?case
  proof (cases "LoadChild t a")
    case None
    then show ?thesis
      by (cases q) (auto simp: fieldsAt_def)
  next
    case (Some c)
    have IH: "\<And>qs. fieldsAt (updateAt (deleteChild k) ps c) qs
                 = (if prefix (ps @ [k]) qs then None else fieldsAt c qs)"
      by (rule Cons.IH)
    show ?thesis
    proof (cases q)
      case Nil
      then show ?thesis
        using Some by (simp add: fieldsAt_def)
    next
      case (Cons k' qs)
      show ?thesis
      proof (cases "k' = a")
        case True
        then show ?thesis
          using Some Cons IH [of qs] by (simp add: fieldsAt_def LoadChild_def update_conv')
      next
        case False
        then show ?thesis
          using Some Cons by (simp add: fieldsAt_def LoadChild_def update_conv')
      qed
    qed
  qed
qed

lemma nodeAt_leaf:
  "nodeAt t p = Some n \<Longrightarrow> store n = [] \<Longrightarrow> r \<noteq> [] \<Longrightarrow> nodeAt t (p @ r) = None"
  by (cases r) (simp_all add: nodeAt_append LoadChild_def)

lemma collectGarbageLocked_frame:
  "val (collectGarbageLocked n) = val (flds n)"
  "valueExists (collectGarbageLocked n) = valueExists (flds n)"
  "syncNeeded (collectGarbageLocked n) = syncNeeded (flds n)"
  "syncedWithKV (collectGarbageLocked n) = syncedWithKV (flds n)"
  "valueUpdateTime (collectGarbageLocked n) = valueUpdateTime (flds n)"
  "storeConsistencyWithKVLossTime (collectGarbageLocked n) = storeConsistencyWithKVLossTime (flds n)"
  "notifyUpdates (collectGarbageLocked n) = notifyUpdates (flds n)"
  by (simp_all add: collectGarbageLocked_def TryPurgeConfirm_frame TryPurgeReady_frame)

text \<open>
  The list that \<open>collectGarbage\<close> returns is sound: each node on it fulfilled the test of
  \<^verbatim>\<open>canBeDeletedFromParent\<close>, had a parent, is gone from the tree that is returned, and
  carries the value and the \<^verbatim>\<open>valueExists\<close> flag it had in the tree that was given.
\<close>

lemma collectGarbage_log_sound:
  "(q, m) \<in> set (snd (collectGarbage root csv)) \<Longrightarrow>
   q \<noteq> [] \<and> canBeDeletedFromParent m
   \<and> nodeAt (fst (collectGarbage root csv)) q = None
   \<and> (\<exists>f0. fieldsAt root q = Some f0 \<and> valueExists (flds m) = valueExists f0
             \<and> val (flds m) = val f0)"
proof (induction root csv rule: collectGarbage.induct)
  case (1 root csv)
  show ?case
  proof (cases "nodeAt root csv")
    case None
    then have "collectGarbage root csv = (root, [])"
      by (subst collectGarbage.simps) simp
    then show ?thesis
      using "1.prems" by simp
  next
    case (Some n)
    define n1 where "n1 = CSV (collectGarbageLocked n) (store n)"
    define root1 where "root1 = updFields (\<lambda>_. collectGarbageLocked n) csv root"
    define root2 where "root2 = updateAt (deleteChild (last csv)) (butlast csv) root1"
    have eq: "collectGarbage root csv
                = (if csv \<noteq> [] \<and> canBeDeletedFromParent n1
                   then (fst (collectGarbage root2 (butlast csv)),
                         (csv, n1) # snd (collectGarbage root2 (butlast csv)))
                   else (root1, []))"
      using Some
      by (subst collectGarbage.simps) (simp add: Let_def n1_def root1_def root2_def)
    show ?thesis
    proof (cases "csv \<noteq> [] \<and> canBeDeletedFromParent n1")
      case False
      have "collectGarbage root csv = (root1, [])"
        by (simp only: eq if_not_P [OF False])
      then show ?thesis
        using "1.prems" by simp
    next
      case True
      have res: "collectGarbage root csv
                   = (fst (collectGarbage root2 (butlast csv)),
                      (csv, n1) # snd (collectGarbage root2 (butlast csv)))"
        by (simp only: eq if_P [OF True])
      have csv: "butlast csv @ [last csv] = csv"
        using True by simp
      have f2: "\<And>q. fieldsAt root2 q = (if prefix csv q then None else fieldsAt root1 q)"
        unfolding root2_def using fieldsAt_deleteChild [of "last csv" "butlast csv" root1] csv
        by simp
      have f1: "\<And>q. fieldsAt root1 q
                  = (if q = csv then Some (collectGarbageLocked n) else fieldsAt root q)"
      proof -
        fix q
        have "fieldsAt root csv = Some (flds n)"
          using Some by (simp add: fieldsAt_def)
        then show "fieldsAt root1 q
                     = (if q = csv then Some (collectGarbageLocked n) else fieldsAt root q)"
          unfolding root1_def by (simp add: fieldsAt_updFields)
      qed
      have gone: "nodeAt root2 csv = None"
        using f2 [of csv] by (simp add: fieldsAt_None)
      have sh: "shrinks (fst (collectGarbage root2 (butlast csv))) root2"
        by (rule collectGarbage_shrinks)
      show ?thesis
      proof (cases "(q, m) = (csv, n1)")
        case True
        then have q: "q = csv" and m: "m = n1"
          by simp_all
        have "nodeAt (fst (collectGarbage root csv)) q = None"
          using shrinks_None [OF sh gone] by (simp add: res q)
        moreover have "fieldsAt root q = Some (flds n)"
          using Some by (simp add: q fieldsAt_def)
        moreover have "valueExists (flds m) = valueExists (flds n)" "val (flds m) = val (flds n)"
          by (simp_all add: m n1_def collectGarbageLocked_frame)
        ultimately show ?thesis
          using \<open>csv \<noteq> [] \<and> canBeDeletedFromParent n1\<close> q m by simp
      next
        case False
        then have mem: "(q, m) \<in> set (snd (collectGarbage root2 (butlast csv)))"
          using "1.prems" by (auto simp: res)
        have IH: "q \<noteq> [] \<and> canBeDeletedFromParent m
                  \<and> nodeAt (fst (collectGarbage root2 (butlast csv))) q = None
                  \<and> (\<exists>f0. fieldsAt root2 q = Some f0 \<and> valueExists (flds m) = valueExists f0
                            \<and> val (flds m) = val f0)"
          using "1.IH" [OF Some n1_def root1_def True root2_def mem] .
        then obtain f0 where f0: "fieldsAt root2 q = Some f0"
            and ve: "valueExists (flds m) = valueExists f0" and vv: "val (flds m) = val f0"
          by blast
        have np: "\<not> prefix csv q"
          using f0 f2 [of q] by (cases "prefix csv q") simp_all
        then have "q \<noteq> csv"
          by auto
        then have "fieldsAt root q = Some f0"
          using f0 f2 [of q] f1 [of q] np by simp
        then show ?thesis
          using IH ve vv by (simp add: res)
      qed
    qed
  qed
qed

text \<open>
  The list is complete: a node of the tree that was given which the tree that is
  returned does not have is on it.
\<close>

lemma collectGarbage_log_complete:
  "nodeAt root q \<noteq> None \<Longrightarrow> nodeAt (fst (collectGarbage root csv)) q = None \<Longrightarrow>
   q \<in> fst ` set (snd (collectGarbage root csv))"
proof (induction root csv rule: collectGarbage.induct)
  case (1 root csv)
  show ?case
  proof (cases "nodeAt root csv")
    case None
    then have "collectGarbage root csv = (root, [])"
      by (subst collectGarbage.simps) simp
    then show ?thesis
      using "1.prems" by simp
  next
    case (Some n)
    define n1 where "n1 = CSV (collectGarbageLocked n) (store n)"
    define root1 where "root1 = updFields (\<lambda>_. collectGarbageLocked n) csv root"
    define root2 where "root2 = updateAt (deleteChild (last csv)) (butlast csv) root1"
    have eq: "collectGarbage root csv
                = (if csv \<noteq> [] \<and> canBeDeletedFromParent n1
                   then (fst (collectGarbage root2 (butlast csv)),
                         (csv, n1) # snd (collectGarbage root2 (butlast csv)))
                   else (root1, []))"
      using Some
      by (subst collectGarbage.simps) (simp add: Let_def n1_def root1_def root2_def)
    have n1: "nodeAt root1 csv = Some n1"
      unfolding root1_def n1_def using Some by (rule nodeAt_updFields_same)
    have same: "\<And>q. nodeAt root1 q = None \<longleftrightarrow> nodeAt root q = None"
      unfolding root1_def by (rule nodeAt_updFields_None)
    show ?thesis
    proof (cases "csv \<noteq> [] \<and> canBeDeletedFromParent n1")
      case False
      have "collectGarbage root csv = (root1, [])"
        by (simp only: eq if_not_P [OF False])
      then show ?thesis
        using "1.prems" same [of q] by simp
    next
      case True
      have res: "collectGarbage root csv
                   = (fst (collectGarbage root2 (butlast csv)),
                      (csv, n1) # snd (collectGarbage root2 (butlast csv)))"
        by (simp only: eq if_P [OF True])
      have csv: "butlast csv @ [last csv] = csv"
        using True by simp
      have f2: "\<And>q. fieldsAt root2 q = (if prefix csv q then None else fieldsAt root1 q)"
        unfolding root2_def using fieldsAt_deleteChild [of "last csv" "butlast csv" root1] csv
        by simp
      have leaf: "store n1 = []"
        using True by (simp add: canBeDeletedFromParent_def)
      show ?thesis
      proof (cases "nodeAt root2 q")
        case (Some c)
        then have "q \<in> fst ` set (snd (collectGarbage root2 (butlast csv)))"
          using "1.IH" [OF \<open>nodeAt root csv = Some n\<close> n1_def root1_def True root2_def]
                "1.prems"(2)
          by (simp add: res)
        then show ?thesis
          by (auto simp: res)
      next
        case None
        have "nodeAt root1 q \<noteq> None"
          using "1.prems"(1) same [of q] by simp
        then have "prefix csv q"
          using None f2 [of q] by (cases "prefix csv q") (auto simp: fieldsAt_def)
        then obtain r where q: "q = csv @ r"
          by (auto simp: prefix_def)
        have "r = []"
        proof (rule ccontr)
          assume "r \<noteq> []"
          then have "nodeAt root1 (csv @ r) = None"
            using n1 leaf by (rule nodeAt_leaf [rotated 2])
          then show False
            using \<open>nodeAt root1 q \<noteq> None\<close> q by simp
        qed
        then show ?thesis
          using q by (simp add: res)
      qed
    qed
  qed
qed

text \<open>
  The cache of the examples with room for one value, after
  \<^verbatim>\<open>SetValue("a", [1, 2], false, 500, "")\<close>: the node of \<^verbatim>\<open>a\<close> is clean.
\<close>

definition storeCleanA :: CacheStore where
  "storeCleanA = SetValue (NewCacheStore ''st'' 1 emptyBucket) 100 ''a'' [1, 2] False 500 []"

text \<open>
  C3 (as stated it does not hold). The claim asks for \<^verbatim>\<open>valueExists = false\<close> at the moment a
  node is removed. One pass of the lazy writer over \<open>storeCleanA\<close> sets the threshold to 500;
  in the next pass the callback of \<^verbatim>\<open>Range\<close> marks the node of \<^verbatim>\<open>a\<close> for purge
  (\<open>lazyWriterPurge\<close>) and \<open>collectGarbage\<close> removes it from the root, with
  \<^verbatim>\<open>valueExists = true\<close> and the value in place.
\<close>

theorem collectGarbage_removes_existing_value:
  "map_sum id
     (\<lambda>s. map (\<lambda>(q, m). (q, valueExists (flds m), val (flds m), purgeState (flds m)))
              (snd (collectGarbage (rootValue (lazyWriterPurge s 300 [] [''a''])) [''a''])))
     (kvLazyWriterPass 200 storeCleanA)
     = Inr [([''a''], True, Some [1, 2], 2)]
   \<and> map_sum id (\<lambda>s. map_sum id (\<lambda>s'. nodeAt (rootValue s') [''a'']) (kvLazyWriterPass 300 s))
        (kvLazyWriterPass 200 storeCleanA)
     = Inr (Inr None)"
  by code_simp

text \<open>
  C3, amended. \<open>collectGarbage\<close> removes a node from the map of its parent only when, at
  that moment, its own map is empty, \<^verbatim>\<open>syncNeeded\<close> is false, \<^verbatim>\<open>syncedWithKV\<close> is true, it has
  no subscribers and its \<^verbatim>\<open>purgeState\<close> is 2; the root is never removed. \<^verbatim>\<open>valueExists\<close>
  is not tested: the node removed has the flag and the value it had before the call. The
  nodes removed are gone from the tree returned, and no other node is.
\<close>

theorem collectGarbage_removed:
  "(\<forall>q m. (q, m) \<in> set (snd (collectGarbage root csv)) \<longrightarrow>
       q \<noteq> [] \<and> purgeState (flds m) = 2 \<and> store m = [] \<and> \<not> syncNeeded (flds m)
       \<and> syncedWithKV (flds m) \<and> notifyUpdates (flds m) = []
       \<and> nodeAt (fst (collectGarbage root csv)) q = None
       \<and> (\<exists>f0. fieldsAt root q = Some f0 \<and> valueExists (flds m) = valueExists f0
                 \<and> val (flds m) = val f0))
   \<and> (\<forall>q. nodeAt root q \<noteq> None \<and> nodeAt (fst (collectGarbage root csv)) q = None \<longrightarrow>
          q \<in> fst ` set (snd (collectGarbage root csv)))"
proof -
  have "\<And>q m. (q, m) \<in> set (snd (collectGarbage root csv)) \<Longrightarrow>
       q \<noteq> [] \<and> purgeState (flds m) = 2 \<and> store m = [] \<and> \<not> syncNeeded (flds m)
       \<and> syncedWithKV (flds m) \<and> notifyUpdates (flds m) = []
       \<and> nodeAt (fst (collectGarbage root csv)) q = None
       \<and> (\<exists>f0. fieldsAt root q = Some f0 \<and> valueExists (flds m) = valueExists f0
                 \<and> val (flds m) = val f0)"
    using collectGarbage_log_sound [of _ _ root csv]
    by (simp add: canBeDeletedFromParent_def)
  then show ?thesis
    using collectGarbage_log_complete [of root _ csv] by blast
qed

text \<open>
  The tree of \<open>storeCleanA\<close> once the lazy writer has marked the node of \<^verbatim>\<open>a\<close> for purge.
\<close>

definition coldTree :: CacheStoreValue where
  "coldTree = rootValue (lazyWriterPurge storeCleanA 300 [] [''a''])"

theorem collectGarbage_removed_witness:
  "snd (collectGarbage coldTree [''a''])
     = [([''a''], CSV \<lparr>val = Some [1, 2], valueExists = True, purgeState = 2,
                        storeConsistencyWithKVLossTime = 0, valueUpdateTime = 500,
                        notifyUpdates = [], syncNeeded = False, syncedWithKV = True\<rparr> [])]
   \<and> nodeAt coldTree [''a''] \<noteq> None
   \<and> nodeAt (fst (collectGarbage coldTree [''a''])) [''a''] = None"
proof -
  have log: "snd (collectGarbage coldTree [''a''])
     = [([''a''], CSV \<lparr>val = Some [1, 2], valueExists = True, purgeState = 2,
                        storeConsistencyWithKVLossTime = 0, valueUpdateTime = 500,
                        notifyUpdates = [], syncNeeded = False, syncedWithKV = True\<rparr> [])]"
    by code_simp
  have ex: "nodeAt coldTree [''a''] \<noteq> None"
    by code_simp
  show ?thesis
    using log ex collectGarbage_removed [of coldTree "[''a'']"] by simp
qed

section \<open>Writing and reading a key\<close>



text \<open>
  The node that \<^verbatim>\<open>SetValue\<close> leaves under the key, for an empty transaction id and a key
  whose last token is not empty.
\<close>

lemma SetValue_fields:
  assumes "strings_Split key CHR ''.'' = pre @ [l]" and "l \<noteq> []"
  shows "\<exists>f. fieldsAt (rootValue (SetValue cs now key v u t [])) (pre @ [l]) = Some f
             \<and> val f = Some v \<and> valueExists f \<and> purgeState f = 0
             \<and> valueUpdateTime f = (if t < 0 then now else t)
             \<and> syncNeeded f = u \<and> syncedWithKV f = (\<not> u)"
proof -
  obtain root1 where
    loop: "getLastKeyTokenLoop (rootValue cs) now True (pre @ [l]) [] = (l, Some ([] @ pre), root1)"
    and par: "nodeAt root1 ([] @ pre) \<noteq> None"
    using getLastKeyTokenLoop_create [of "rootValue cs" "[]" now pre l] by auto
  define cst where "cst = (if t < 0 then now else t)"
  have tm: "(if cst < 0 then now else cst) = cst"
    by (simp add: cst_def)
  show ?thesis
  proof (cases "nodeAt root1 (pre @ [l])")
    case (Some csv)
    then have root: "rootValue (SetValue cs now key v u t []) = Put root1 (pre @ [l]) v u cst now"
      using loop assms
      by (simp add: SetValue_def getLastKeyTokenAndItsParentCacheStoreValue_def cst_def Let_def)
    have "fieldsAt root1 (pre @ [l]) = Some (flds csv)"
      using Some by (simp add: fieldsAt_def)
    then have "fieldsAt (Put root1 (pre @ [l]) v u cst now) (pre @ [l])
            = Some (csvPut v u cst now (flds csv))"
      by (simp add: fieldsAt_Put)
    then show ?thesis
      using tm by (simp add: root csvPut_def cst_def)
  next
    case None
    then have root: "rootValue (SetValue cs now key v u t [])
                       = StoreChild root1 pre l (newCSV (Some v) True u cst)"
      using loop assms
      by (simp add: SetValue_def getLastKeyTokenAndItsParentCacheStoreValue_def cst_def Let_def)
    obtain n where "nodeAt root1 pre = Some n"
      using par by (cases "nodeAt root1 pre") auto
    then have "nodeAt (StoreChild root1 pre l (newCSV (Some v) True u cst)) (pre @ [l])
                 = Some (newCSV (Some v) True u cst)"
      by (rule nodeAt_StoreChild_new)
    then show ?thesis
      by (simp add: root fieldsAt_def newCSV_def cst_def)
  qed
qed

lemma GetValue_hit:
  assumes "strings_Split key CHR ''.'' = pre @ [l]" and "l \<noteq> []"
      and "nodeAt (rootValue cs) (pre @ [l]) = Some n"
  shows "GetValue cs now key
           = (if valueExists (flds n)
              then (Inr (case val (flds n) of Some bv \<Rightarrow> bv | None \<Rightarrow> []), cs)
              else (Inl (ValueDoesNotExist key), cs))"
  using assms(2,3) by (simp add: GetValue_def loadChildByKey_eq [OF assms(1)])


text \<open>
  C1 (as stated it does not hold). The claim: after \<^verbatim>\<open>SetValue(K, v1, u, t1, "")\<close> and
  \<^verbatim>\<open>SetValue(K, v2, u, t2, "")\<close> with \<^verbatim>\<open>t2 < t1\<close>, \<^verbatim>\<open>GetValue(K)\<close> returns \<^verbatim>\<open>v1\<close>. On the empty
  cache, with the key \<^verbatim>\<open>a\<close>, the values \<^verbatim>\<open>[1, 2]\<close> at the time 10 and then \<^verbatim>\<open>[3]\<close> at the
  time 5, it returns \<^verbatim>\<open>[3]\<close>, and the time of the key is 5.
\<close>

theorem SetValue_older_time_overwrites:
  "fst (GetValue (SetValue (SetValue emptyStore 100 ''a'' [1, 2] True 10 []) 101 ''a'' [3] True 5 [])
          102 ''a'') = Inr [3]
   \<and> GetValueUpdateTime
        (SetValue (SetValue emptyStore 100 ''a'' [1, 2] True 10 []) 101 ''a'' [3] True 5 []) ''a''
      = 5"
  by code_simp

text \<open>
  C1, amended. \<^verbatim>\<open>Put\<close> compares no times. For a key whose last token is not empty,
  whatever the cache holds before (so also after an earlier \<^verbatim>\<open>SetValue\<close> of the key with
  any time), \<^verbatim>\<open>SetValue(K, v2, u2, t2, "")\<close> leaves \<^verbatim>\<open>GetValue(K)\<close> returning \<^verbatim>\<open>v2\<close>
  without an error and without a change of the cache, and the time of the key is \<^verbatim>\<open>t2\<close>,
  or the clock when \<^verbatim>\<open>t2\<close> is negative: the write that is called last wins.
\<close>

theorem SetValue_last_call_wins:
  assumes "last (strings_Split K CHR ''.'') \<noteq> []"
  shows "GetValue (SetValue cs now2 K v2 u2 t2 []) now3 K
           = (Inr v2, SetValue cs now2 K v2 u2 t2 [])
         \<and> GetValueUpdateTime (SetValue cs now2 K v2 u2 t2 []) K = (if t2 < 0 then now2 else t2)
         \<and> fst (GetValue (SetValue (SetValue cs now1 K v1 u1 t1 []) now2 K v2 u2 t2 []) now3 K)
             = Inr v2"
proof -
  obtain pre l where split: "strings_Split K CHR ''.'' = pre @ [l]"
    using strings_Split_snoc by blast
  then have l: "l \<noteq> []"
    using assms by simp
  have one: "\<And>cs'. GetValue (SetValue cs' now2 K v2 u2 t2 []) now3 K
                      = (Inr v2, SetValue cs' now2 K v2 u2 t2 [])
                    \<and> GetValueUpdateTime (SetValue cs' now2 K v2 u2 t2 []) K
                        = (if t2 < 0 then now2 else t2)"
  proof -
    fix cs'
    obtain f where f: "fieldsAt (rootValue (SetValue cs' now2 K v2 u2 t2 [])) (pre @ [l]) = Some f"
        and fv: "val f = Some v2" "valueExists f" "valueUpdateTime f = (if t2 < 0 then now2 else t2)"
      using SetValue_fields [OF split l, of cs' now2 v2 u2 t2] by blast
    then obtain n where n: "nodeAt (rootValue (SetValue cs' now2 K v2 u2 t2 [])) (pre @ [l]) = Some n"
        and nf: "flds n = f"
      by (auto simp: fieldsAt_def)
    have "GetValue (SetValue cs' now2 K v2 u2 t2 []) now3 K
            = (Inr v2, SetValue cs' now2 K v2 u2 t2 [])"
      using GetValue_hit [OF split l n] fv nf by simp
    moreover have "GetValueUpdateTime (SetValue cs' now2 K v2 u2 t2 []) K
                     = (if t2 < 0 then now2 else t2)"
      using f fv l by (simp add: GetValueUpdateTime_eq [OF split])
    ultimately show "GetValue (SetValue cs' now2 K v2 u2 t2 []) now3 K
                      = (Inr v2, SetValue cs' now2 K v2 u2 t2 [])
                    \<and> GetValueUpdateTime (SetValue cs' now2 K v2 u2 t2 []) K
                        = (if t2 < 0 then now2 else t2)"
      by simp
  qed
  show ?thesis
    using one [of cs] one [of "SetValue cs now1 K v1 u1 t1 []"] by simp
qed

theorem SetValue_last_call_wins_witness:
  "last (strings_Split ''a.b'' CHR ''.'') \<noteq> []
   \<and> fst (GetValue (SetValue (SetValue emptyStore 100 ''a.b'' [1, 2] True 10 [])
                      101 ''a.b'' [3] True 5 []) 102 ''a.b'') = Inr [3]"
proof -
  have h: "last (strings_Split ''a.b'' CHR ''.'') \<noteq> []"
    by code_simp
  show ?thesis
    using h SetValue_last_call_wins [OF h, where cs = emptyStore and ?now1.0 = 100
            and ?v1.0 = "[1, 2]" and ?u1.0 = True and ?t1.0 = 10 and ?now2.0 = 101
            and ?v2.0 = "[3]" and ?u2.0 = True and ?t2.0 = 5 and ?now3.0 = 102]
    by simp
qed






section \<open>Keys by pattern\<close>

lemma keysInsert_set: "set (keysInsert k keys) = insert k (set keys)"
  by (auto simp: keysInsert_def)

lemma keysInsert_distinct: "distinct keys \<Longrightarrow> distinct (keysInsert k keys)"
  by (simp add: keysInsert_def)

lemma appendEntries_set:
  "set (appendEntries cs es keys) = set keys \<union> set (appendEntries cs es [])"
proof (induction es arbitrary: keys)
  case Nil
  show ?case by simp
next
  case (Cons e es)
  show ?case
  proof (cases e)
    case None
    then show ?thesis by simp
  next
    case (Some entry)
    have a: "set (appendEntries cs es (keysInsert (fromStoreKey cs (fst entry)) keys))
               = insert (fromStoreKey cs (fst entry)) (set keys) \<union> set (appendEntries cs es [])"
      using Cons.IH [of "keysInsert (fromStoreKey cs (fst entry)) keys"]
      by (simp add: keysInsert_set)
    have b: "set (appendEntries cs es (keysInsert (fromStoreKey cs (fst entry)) []))
               = {fromStoreKey cs (fst entry)} \<union> set (appendEntries cs es [])"
      using Cons.IH [of "keysInsert (fromStoreKey cs (fst entry)) []"]
      by (simp add: keysInsert_set)
    show ?thesis
      using a b Some by auto
  qed
qed

lemma appendEntries_distinct:
  "distinct keys \<Longrightarrow> distinct (appendEntries cs es keys)"
proof (induction es arbitrary: keys)
  case Nil
  then show ?case by simp
next
  case (Cons e es)
  then show ?case
    by (cases e) (simp_all add: keysInsert_distinct)
qed

lemma appendEntries_length:
  "length keys \<le> length (appendEntries cs es keys)"
proof (induction es arbitrary: keys)
  case Nil
  show ?case by simp
next
  case (Cons e es)
  show ?case
  proof (cases e)
    case None
    then show ?thesis by simp
  next
    case (Some entry)
    have "length keys \<le> length (keysInsert (fromStoreKey cs (fst entry)) keys)"
      by (simp add: keysInsert_def)
    also have "\<dots> \<le> length (appendEntries cs es (keysInsert (fromStoreKey cs (fst entry)) keys))"
      by (rule Cons.IH)
    finally show ?thesis
      using Some by simp
  qed
qed

lemma appendKeysFromKV_set:
  "set (fst (appendKeysFromKV cs pattern keys))
     = set keys \<union> set (fst (appendKeysFromKV cs pattern []))"
  using appendEntries_set [of cs _ keys]
  by (simp add: appendKeysFromKV_def split: sum.splits)

lemma appendKeysFromKV_distinct:
  "distinct keys \<Longrightarrow> distinct (fst (appendKeysFromKV cs pattern keys))"
  by (simp add: appendKeysFromKV_def appendEntries_distinct split: sum.splits)

lemma appendKeysFromKV_snd:
  "snd (appendKeysFromKV cs pattern keys) = snd (appendKeysFromKV cs pattern keys')"
  by (simp add: appendKeysFromKV_def split: sum.splits)

lemma appendKeysFromKV_frame:
  "rootValue (snd (appendKeysFromKV cs pattern keys)) = rootValue cs"
  "kv (snd (appendKeysFromKV cs pattern keys)) = kv cs"
  by (simp_all add: appendKeysFromKV_def split: sum.splits)

text \<open>
  What \<^verbatim>\<open>appendKeysFromKV\<close> can add: keys of the bucket that match the pattern, without
  the prefix; and all of them, when the bucket answers and each of its values has 9
  bytes or more.
\<close>

lemma appendEntries_subset:
  "set (appendEntries cs es []) \<subseteq> (\<lambda>e. fromStoreKey cs (fst e)) ` {entry. Some entry \<in> set es}"
proof (induction es)
  case Nil
  show ?case by simp
next
  case (Cons e es)
  show ?case
  proof (cases e)
    case None
    then show ?thesis by simp
  next
    case (Some entry)
    have step: "set (appendEntries cs es (keysInsert (fromStoreKey cs (fst entry)) []))
            = insert (fromStoreKey cs (fst entry)) (set (appendEntries cs es []))"
      using appendEntries_set [of cs es "keysInsert (fromStoreKey cs (fst entry)) []"]
      by (simp add: keysInsert_set)
    have hd: "fromStoreKey cs (fst entry)
                \<in> (\<lambda>e. fromStoreKey cs (fst e)) ` {entry'. Some entry' \<in> set (e # es)}"
      by (rule image_eqI [where x = entry]) (simp_all add: Some)
    have tl: "(\<lambda>e. fromStoreKey cs (fst e)) ` {entry'. Some entry' \<in> set es}
                \<subseteq> (\<lambda>e. fromStoreKey cs (fst e)) ` {entry'. Some entry' \<in> set (e # es)}"
      by (rule image_mono) auto
    have "set (appendEntries cs (e # es) [])
            \<subseteq> insert (fromStoreKey cs (fst entry)) (set (appendEntries cs es []))"
      using step Some by (cases "9 \<le> length (snd entry)") simp_all
    also have "\<dots> \<subseteq> (\<lambda>e. fromStoreKey cs (fst e)) ` {entry'. Some entry' \<in> set (e # es)}"
      using hd tl Cons.IH by blast
    finally show ?thesis .
  qed
qed

lemma appendEntries_all:
  "\<forall>entry\<in>set es. 9 \<le> length (snd entry) \<Longrightarrow>
   set (appendEntries cs (map Some es @ [None]) [])
     = (\<lambda>entry. fromStoreKey cs (fst entry)) ` set es"
proof (induction es)
  case Nil
  show ?case by simp
next
  case (Cons e es)
  have "set (appendEntries cs (map Some es @ [None]) (keysInsert (fromStoreKey cs (fst e)) []))
          = {fromStoreKey cs (fst e)} \<union> set (appendEntries cs (map Some es @ [None]) [])"
    using appendEntries_set [of cs "map Some es @ [None]" "keysInsert (fromStoreKey cs (fst e)) []"]
    by (simp add: keysInsert_set)
  then show ?case
    using Cons by simp
qed

lemma appendKeysFromKV_subset:
  "set (fst (appendKeysFromKV cs pattern []))
     \<subseteq> (\<lambda>e. fromStoreKey cs (fst e)) `
         set (filter (\<lambda>e. subjectMatches (strings_Split (toStoreKey cs pattern) CHR ''.'')
                                          (strings_Split (fst e) CHR ''.''))
                (kvData (kv cs)))"
proof (cases "kvDown (kv cs)")
  case True
  then show ?thesis
    by (simp add: appendKeysFromKV_def kv_Watch_def)
next
  case False
  define es where
    "es = filter (\<lambda>e. subjectMatches (strings_Split (toStoreKey cs pattern) CHR ''.'')
                                      (strings_Split (fst e) CHR ''.'')) (kvData (kv cs))"
  have "set (appendEntries cs (map Some es @ [None]) [])
          \<subseteq> (\<lambda>e. fromStoreKey cs (fst e)) ` {entry. Some entry \<in> set (map Some es @ [None])}"
    by (rule appendEntries_subset)
  also have "{entry. Some entry \<in> set (map Some es @ [None])} = set es"
    by (simp add: image_iff set_eq_iff)
  finally have "set (appendEntries cs (map Some es @ [None]) [])
                  \<subseteq> (\<lambda>e. fromStoreKey cs (fst e)) ` set es" .
  then show ?thesis
    using False unfolding es_def by (simp add: appendKeysFromKV_def kv_Watch_def)
qed

lemma appendKeysFromKV_all:
  assumes "\<not> kvDown (kv cs)" and "\<forall>e\<in>set (kvData (kv cs)). 9 \<le> length (snd e)"
  shows "set (fst (appendKeysFromKV cs pattern []))
     = (\<lambda>e. fromStoreKey cs (fst e)) `
         set (filter (\<lambda>e. subjectMatches (strings_Split (toStoreKey cs pattern) CHR ''.'')
                                          (strings_Split (fst e) CHR ''.''))
                (kvData (kv cs)))"
proof -
  define es where
    "es = filter (\<lambda>e. subjectMatches (strings_Split (toStoreKey cs pattern) CHR ''.'')
                                      (strings_Split (fst e) CHR ''.'')) (kvData (kv cs))"
  have "\<forall>entry\<in>set es. 9 \<le> length (snd entry)"
    using assms(2) by (simp add: es_def)
  then have "set (appendEntries cs (map Some es @ [None]) [])
               = (\<lambda>entry. fromStoreKey cs (fst entry)) ` set es"
    by (rule appendEntries_all)
  then show ?thesis
    using assms(1) unfolding es_def by (simp add: appendKeysFromKV_def kv_Watch_def)
qed

lemma GetKeysByPattern_branch:
  assumes "strings_Split pattern CHR ''.'' = pre @ [l]" and "l \<noteq> []"
      and "nodeAt (rootValue cs) pre = Some parent"
  shows "GetKeysByPattern cs pattern
           = (if l = ''*'' then patternStar cs pattern pre
              else if l = ''>'' then patternRecursive cs pattern pre
              else patternLiteral cs pattern pre l)"
  using assms(2,3) by (simp add: GetKeysByPattern_def lookup_without_create [OF assms(1)])

lemma GetKeysByPattern_no_parent:
  assumes "strings_Split pattern CHR ''.'' = pre @ [l]"
      and "nodeAt (rootValue cs) pre = None"
  shows "GetKeysByPattern cs pattern = patternNoLevel cs pattern"
  using assms(2) by (simp add: GetKeysByPattern_def lookup_without_create [OF assms(1)])

lemma patternNoLevel_frame:
  "rootValue (snd (patternNoLevel cs pattern)) = rootValue cs"
  "kv (snd (patternNoLevel cs pattern)) = kv cs"
  by (simp_all add: patternNoLevel_def appendKeysFromKV_frame split: option.splits)

text \<open>
  The cache of the examples after the lazy writer has marked the node of \<^verbatim>\<open>a\<close>, which
  raised the time of the loss of consistency of the root to 300, over a bucket that holds
  \<^verbatim>\<open>st.a\<close> and \<^verbatim>\<open>st.b\<close>.
\<close>

definition lossyStore :: CacheStore where
  "lossyStore =
     (lazyWriterPurge storeCleanA 300 [] [''a''])
       \<lparr>kv := \<lparr>kvData = [(''st.a'', BigEndian_PutUint64 500 @ [1, 1, 2]),
                          (''st.b'', BigEndian_PutUint64 400 @ [1, 9])],
                kvDown = False\<rparr>\<rparr>"

text \<open>
  C9. For a pattern whose last token is neither empty nor \<^verbatim>\<open>*\<close> nor \<^verbatim>\<open>>\<close>,
  \<^verbatim>\<open>GetKeysByPattern\<close> leaves the tree and the bucket as they were, so no marker of a loss
  of consistency changes. When the parent is there, the keys it returns are without
  repetition: the pattern itself if and only if the parent has a child under the last
  token, and, only when the marker of the parent is above 0, what \<^verbatim>\<open>appendKeysFromKV\<close>
  reads from the bucket.
\<close>

theorem GetKeysByPattern_literal:
  assumes "strings_Split pattern CHR ''.'' = pre @ [l]"
      and "l \<noteq> []" and "l \<noteq> ''*''" and "l \<noteq> ''>''"
  shows "rootValue (snd (GetKeysByPattern cs pattern)) = rootValue cs
         \<and> kv (snd (GetKeysByPattern cs pattern)) = kv cs
         \<and> (\<forall>parent. nodeAt (rootValue cs) pre = Some parent \<longrightarrow>
               distinct (fst (GetKeysByPattern cs pattern))
               \<and> set (fst (GetKeysByPattern cs pattern))
                   = (if nodeAt (rootValue cs) (pre @ [l]) \<noteq> None then {pattern} else {})
                     \<union> (if storeConsistencyWithKVLossTime (flds parent) > 0
                        then set (fst (appendKeysFromKV cs pattern [])) else {}))"
proof (cases "nodeAt (rootValue cs) pre")
  case None
  then show ?thesis
    by (simp add: GetKeysByPattern_no_parent [OF assms(1) None] patternNoLevel_frame)
next
  case (Some parent)
  define keys0 where
    "keys0 = (case LoadChild parent l of Some csv \<Rightarrow> keysInsert pattern [] | None \<Rightarrow> [])"
  have child: "nodeAt (rootValue cs) (pre @ [l]) = LoadChild parent l"
    using Some by (simp add: nodeAt_snoc)
  have k0: "distinct keys0"
           "set keys0 = (if nodeAt (rootValue cs) (pre @ [l]) \<noteq> None then {pattern} else {})"
    by (auto simp: keys0_def child keysInsert_def split: option.splits)
  have eq: "GetKeysByPattern cs pattern
              = (if storeConsistencyWithKVLossTime (flds parent) > 0
                 then appendKeysFromKV cs pattern keys0 else (keys0, cs))"
    using assms(3,4) Some
    by (simp add: GetKeysByPattern_branch [OF assms(1,2) Some] patternLiteral_def keys0_def Let_def)
  show ?thesis
  proof (cases "storeConsistencyWithKVLossTime (flds parent) > 0")
    case True
    then show ?thesis
      using Some k0 appendKeysFromKV_set [of cs pattern keys0]
      by (simp add: eq appendKeysFromKV_frame appendKeysFromKV_distinct)
  next
    case False
    then show ?thesis
      using Some k0 by (simp add: eq)
  qed
qed

theorem GetKeysByPattern_literal_witness:
  "strings_Split ''a'' CHR ''.'' = [] @ [''a'']
   \<and> map_option (storeConsistencyWithKVLossTime \<circ> flds) (nodeAt (rootValue lossyStore) []) = Some 300
   \<and> rootValue (snd (GetKeysByPattern lossyStore ''a'')) = rootValue lossyStore
   \<and> set (fst (GetKeysByPattern lossyStore ''a'')) = {''a''}
   \<and> set (fst (GetKeysByPattern lossyStore ''b'')) = {''b''}
   \<and> set (fst (GetKeysByPattern lossyStore ''c'')) = {}"
proof -
  have ha: "strings_Split ''a'' CHR ''.'' = [] @ [''a'']"
    and hb: "strings_Split ''b'' CHR ''.'' = [] @ [''b'']"
    and hc: "strings_Split ''c'' CHR ''.'' = [] @ [''c'']"
    by code_simp+
  have ne: "''a'' \<noteq> []" "''a'' \<noteq> ''*''" "''a'' \<noteq> ''>''"
           "''b'' \<noteq> []" "''b'' \<noteq> ''*''" "''b'' \<noteq> ''>''"
           "''c'' \<noteq> []" "''c'' \<noteq> ''*''" "''c'' \<noteq> ''>''"
    by simp_all
  have loss: "map_option (storeConsistencyWithKVLossTime \<circ> flds) (nodeAt (rootValue lossyStore) [])
                = Some 300"
    by code_simp
  have na: "nodeAt (rootValue lossyStore) ([] @ [''a'']) \<noteq> None"
    and nb: "nodeAt (rootValue lossyStore) ([] @ [''b'']) = None"
    and nc: "nodeAt (rootValue lossyStore) ([] @ [''c'']) = None"
    by code_simp+
  have ka: "fst (appendKeysFromKV lossyStore ''a'' []) = [''a'']"
    and kb: "fst (appendKeysFromKV lossyStore ''b'' []) = [''b'']"
    and kc: "fst (appendKeysFromKV lossyStore ''c'' []) = []"
    by code_simp+
  show ?thesis
    using ha loss na nb nc
      GetKeysByPattern_literal [OF ha ne(1,2,3), of lossyStore]
      GetKeysByPattern_literal [OF hb ne(4,5,6), of lossyStore]
      GetKeysByPattern_literal [OF hc ne(7,8,9), of lossyStore]
    by (simp add: ka kb kc)
qed









section \<open>The lazy writer and cold nodes\<close>





























end
